theory Spec2Isabelle
  imports Main "HOL-Library.Sublist" "HOL-Library.AList"
begin



section \<open>JavaScript strings and \<open>String.prototype.replace\<close>\<close>

text \<open>
  A JavaScript string is a sequence of UTF-16 code units. It is modelled as a
  \<open>string\<close> (a list of characters), one character per code unit; the regular
  expressions of the program carry no \<open>u\<close> flag, so they too work on single code units.
\<close>

definition isWhiteSpace :: "char \<Rightarrow> bool" where
  "isWhiteSpace c \<longleftrightarrow>
     c \<in> set [CHR 0x09, CHR 0x0A, CHR 0x0B, CHR 0x0C, CHR 0x0D, CHR 0x20, CHR 0xA0]"

text \<open>\<open>String.prototype.trim\<close>: white space and line terminators leave both ends.\<close>

definition trim :: "string \<Rightarrow> string" where
  "trim s = rev (dropWhile isWhiteSpace (rev (dropWhile isWhiteSpace s)))"

text \<open>
  \<open>splitAtFirst pat s\<close> is \<open>s.indexOf(pat)\<close>, given as the text before and the text
  after the first occurrence of \<open>pat\<close>.
\<close>

fun splitAtFirst :: "string \<Rightarrow> string \<Rightarrow> (string \<times> string) option" where
  "splitAtFirst pat [] = (if pat = [] then Some ([], []) else None)"
| "splitAtFirst pat (c # cs) =
     (if prefix pat (c # cs) then Some ([], drop (length pat) (c # cs))
      else map_option (\<lambda>(pre, post). (c # pre, post)) (splitAtFirst pat cs))"

text \<open>
  \<open>GetSubstitution\<close> of ECMAScript for a string pattern (no capture groups): in the
  replacement text \<open>$$\<close> stands for a dollar sign, \<open>$&\<close> for the matched text,
  \<open>$`\<close> for the text before the match and \<open>$'\<close> for the text after it; any other
  use of the dollar sign is literal.
\<close>

fun getSubstitution :: "string \<Rightarrow> string \<Rightarrow> string \<Rightarrow> string \<Rightarrow> string" where
  "getSubstitution matched pre post [] = []"
| "getSubstitution matched pre post [c] = [c]"
| "getSubstitution matched pre post (c # d # r) =
     (if c = CHR ''$'' then
        (if d = CHR ''$'' then CHR ''$'' # getSubstitution matched pre post r
         else if d = CHR ''&'' then matched @ getSubstitution matched pre post r
         else if d = CHR 0x60 then pre @ getSubstitution matched pre post r
         else if d = CHR 0x27 then post @ getSubstitution matched pre post r
         else c # getSubstitution matched pre post (d # r))
      else c # getSubstitution matched pre post (d # r))"

text \<open>\<open>s.replace(pat, rep)\<close> with a string pattern: the first occurrence only.\<close>

definition replace :: "string \<Rightarrow> string \<Rightarrow> string \<Rightarrow> string" where
  "replace s pat rep =
     (case splitAtFirst pat s of
        None \<Rightarrow> s
      | Some (pre, post) \<Rightarrow> pre @ getSubstitution pat pre post rep @ post)"

section \<open>Placeholder protection (utils.js)\<close>

text \<open>The decimal numeral of a number, as a template literal prints it.\<close>

fun decimal :: "nat \<Rightarrow> string" where
  "decimal n =
     (if n < 10 then [char_of (48 + n)] else decimal (n div 10) @ [char_of (48 + n mod 10)])"

declare decimal.simps [simp del]

text \<open>The decimal digits, and the number that a numeral stands for.\<close>

definition isDigit :: "char \<Rightarrow> bool" where
  "isDigit c \<longleftrightarrow> 48 \<le> (of_char c :: nat) \<and> (of_char c :: nat) \<le> 57"

definition parseDecimal :: "string \<Rightarrow> nat" where
  "parseDecimal s = foldl (\<lambda>n c. 10 * n + (of_char c - 48)) 0 s"

definition placeholderFor :: "nat \<Rightarrow> string" where
  "placeholderFor i = ''[[PROTECTED_'' @ decimal i @ '']]''"

text \<open>
  The four entries of \<open>PROTECTED_PATTERNS\<close>, in the order of the array:
  \<open>/&[0-9a-fk-or]/gi\<close>, \<open>/%[sdfioxXeEgGcpn]/g\<close>, \<open>/\{[^}]+\}/g\<close> and \<open>/%%/g\<close>.
\<close>

datatype pattern = ColorCode | PrintfVar | NamedPlaceholder | DoublePercent

definition PROTECTED_PATTERNS :: "pattern list" where
  "PROTECTED_PATTERNS = [ColorCode, PrintfVar, NamedPlaceholder, DoublePercent]"

text \<open>The class \<open>[0-9a-fk-or]\<close> under the \<open>i\<close> flag.\<close>

definition isColorCodeChar :: "char \<Rightarrow> bool" where
  "isColorCodeChar c \<longleftrightarrow> c \<in> set ''0123456789abcdefklmnorABCDEFKLMNOR''"

definition isPrintfChar :: "char \<Rightarrow> bool" where
  "isPrintfChar c \<longleftrightarrow> c \<in> set ''sdfioxXeEgGcpn''"

text \<open>
  \<open>matchAt p s\<close>: the length of the match of the pattern at the very start of \<open>s\<close>,
  if it matches there. In \<open>\{[^}]+\}\<close> the greedy class runs to the first closing
  brace, and it must take at least one code unit.
\<close>

fun matchTwo :: "(char \<Rightarrow> bool) \<Rightarrow> (char \<Rightarrow> bool) \<Rightarrow> string \<Rightarrow> nat option" where
  "matchTwo f g (a # b # cs) = (if f a \<and> g b then Some 2 else None)"
| "matchTwo f g cs = None"

fun matchBraces :: "string \<Rightarrow> nat option" where
  "matchBraces [] = None"
| "matchBraces (a # cs) =
     (let body = takeWhile (\<lambda>c. c \<noteq> CHR ''}'') cs in
      if a = CHR ''{'' \<and> body \<noteq> [] \<and> length body < length cs
      then Some (length body + 2) else None)"

fun matchAt :: "pattern \<Rightarrow> string \<Rightarrow> nat option" where
  "matchAt ColorCode s = matchTwo (\<lambda>c. c = CHR ''&'') isColorCodeChar s"
| "matchAt PrintfVar s = matchTwo (\<lambda>c. c = CHR ''%'') isPrintfChar s"
| "matchAt NamedPlaceholder s = matchBraces s"
| "matchAt DoublePercent s = matchTwo (\<lambda>c. c = CHR ''%'') (\<lambda>c. c = CHR ''%'') s"

text \<open>
  \<open>s.matchAll(pattern)\<close> for a global pattern, as the list of the matched texts
  (\<open>match[0]\<close>): the scan goes from left to right, a match is followed by the scan
  of what comes after it, and an empty match would move on by one code unit.
\<close>

function matchAll :: "pattern \<Rightarrow> string \<Rightarrow> string list" where
  "matchAll p [] = []"
| "matchAll p (c # cs) =
     (case matchAt p (c # cs) of
        None \<Rightarrow> matchAll p cs
      | Some n \<Rightarrow> take n (c # cs) # matchAll p (drop (max n 1) (c # cs)))"
  by pat_completeness auto
termination
  by (relation "measure (\<lambda>(p, s). length s)") auto

record placeholder_entry =
  placeholder :: string
  original :: string
  index :: nat

record protect_state =
  protectedText :: string
  placeholderMap :: "placeholder_entry list"
  placeholderIndex :: nat

text \<open>The body of the inner \<open>forEach\<close>: one match is recorded and masked.\<close>

definition protectMatch :: "string \<Rightarrow> protect_state \<Rightarrow> protect_state" where
  "protectMatch orig st =
     \<lparr> protectedText =
         replace (protectedText st) orig (placeholderFor (placeholderIndex st)),
       placeholderMap = placeholderMap st @
         [\<lparr> placeholder = placeholderFor (placeholderIndex st), original = orig,
            index = placeholderIndex st \<rparr>],
       placeholderIndex = placeholderIndex st + 1 \<rparr>"

text \<open>
  The body of the outer \<open>forEach\<close>: the matches of one pattern are collected from
  the current text first, then handled one after the other.
\<close>

definition protectPattern :: "pattern \<Rightarrow> protect_state \<Rightarrow> protect_state" where
  "protectPattern pat st = fold protectMatch (matchAll pat (protectedText st)) st"

definition protectPlaceholders :: "string \<Rightarrow> string \<times> placeholder_entry list" where
  "protectPlaceholders txt =
     (if txt = [] then ([], [])
      else
        let st = fold protectPattern PROTECTED_PATTERNS
                   \<lparr> protectedText = txt, placeholderMap = [], placeholderIndex = 0 \<rparr>
        in (protectedText st, placeholderMap st))"

definition restorePlaceholders :: "string \<Rightarrow> placeholder_entry list \<Rightarrow> string" where
  "restorePlaceholders txt mp =
     (if txt = [] \<or> mp = [] then txt
      else fold (\<lambda>e restoredText. replace restoredText (placeholder e) (original e))
             (rev mp) txt)"

definition shouldTranslate :: "string \<Rightarrow> bool" where
  "shouldTranslate txt =
     (if txt = [] then False
      else if length (trim txt) = 0 then False
      else if length (trim (fst (protectPlaceholders txt))) = 0 then False
      else True)"

section \<open>The translation client (translator.js)\<close>

definition MAX_RETRIES :: nat where
  "MAX_RETRIES = 3"

definition INITIAL_RETRY_DELAY :: nat where
  "INITIAL_RETRY_DELAY = 1000"

definition MAX_RETRY_DELAY :: nat where
  "MAX_RETRY_DELAY = 10000"

record config =
  apiKey :: string
  sourceLang :: string
  targetLang :: string

text \<open>The form fields and the authorisation header of one POST to the service.\<close>

record request =
  authorization :: string
  text_field :: string
  source_lang :: string
  target_lang :: string

definition mkRequest :: "config \<Rightarrow> string \<Rightarrow> request" where
  "mkRequest cfg txt =
     \<lparr> authorization = ''DeepL-Auth-Key '' @ apiKey cfg, text_field = txt,
       source_lang = sourceLang cfg, target_lang = targetLang cfg \<rparr>"

text \<open>
  What one call of \<open>fetch\<close> can do. Either the promise is rejected with an error
  whose \<open>code\<close> property is the given string (empty when the error has none), or a
  response arrives, with its status and with what reading its body does. Awaiting
  \<open>response.text()\<close> gives the text, or is rejected with an error of the given
  code; awaiting \<open>response.json()\<close> gives the \<open>text\<close> fields of
  \<open>data.translations\<close> (\<open>None\<close> when the member is missing), or is rejected (with
  the empty code when the body is not JSON, with the code of the network error when
  the connection breaks while the body is read).
\<close>

datatype body = BodyRejected string | BodyText string

datatype payload = JsonRejected string | Json "string list option"

datatype fetch_outcome = Rejected string | Responded nat body payload

text \<open>
  The remote service and the network are a state \<open>'w\<close> that every call reads and
  changes. The time slept in \<open>delay\<close> is kept as the list of the waits, in milliseconds.
\<close>

type_synonym 'w fetch = "request \<Rightarrow> 'w \<Rightarrow> fetch_outcome \<times> 'w"

record 'w runtime =
  net :: 'w
  delays :: "nat list"

text \<open>The errors that \<open>translateWithRetry\<close> throws.\<close>

datatype error =
    MaxRetriesReached
  | ApiError nat string
  | NoTranslationReturned
  | FetchError string

definition responseOk :: "nat \<Rightarrow> bool" where
  "responseOk status \<longleftrightarrow> 200 \<le> status \<and> status \<le> 299"

definition retryDelay :: "nat \<Rightarrow> nat" where
  "retryDelay attempt = min (INITIAL_RETRY_DELAY * 2 ^ (attempt - 1)) MAX_RETRY_DELAY"

definition delay :: "nat \<Rightarrow> 'w runtime \<Rightarrow> 'w runtime" where
  "delay ms rt = rt\<lparr> delays := delays rt @ [ms] \<rparr>"

text \<open>The error codes on which the \<open>catch\<close> block retries.\<close>

definition transientCode :: "string \<Rightarrow> bool" where
  "transientCode code \<longleftrightarrow> code = ''ECONNRESET'' \<or> code = ''ETIMEDOUT''"

text \<open>
  \<open>translateWithRetry\<close>. Everything between the call of \<open>fetch\<close> and the
  \<open>return\<close> stands in the \<open>try\<close> block, so the \<open>catch\<close> block sees a rejected
  \<open>fetch\<close>, a rejected read of the body and the errors that the block throws itself.
  The latter are made by \<open>new Error\<close> and have no \<open>code\<close>: the \<open>catch\<close> block
  throws them again. A rejection is retried when its code is transient and the
  attempts are not used up, and thrown again otherwise (\<open>FetchError\<close> with its code).
  The recursive call is returned without \<open>await\<close>, so its failure does not pass
  through the \<open>catch\<close> block of the caller.
\<close>

function translateWithRetry ::
  "'w fetch \<Rightarrow> config \<Rightarrow> string \<Rightarrow> nat \<Rightarrow> 'w runtime \<Rightarrow> (error + string) \<times> 'w runtime"
where
  "translateWithRetry fetch cfg txt attempt rt =
     (case fetch (mkRequest cfg txt) (net rt) of
        (Responded status body pl, w) \<Rightarrow>
          if status = 429 then
            (if attempt \<le> MAX_RETRIES
             then translateWithRetry fetch cfg txt (attempt + 1)
                    (delay (retryDelay attempt) (rt\<lparr> net := w \<rparr>))
             else (Inl MaxRetriesReached, rt\<lparr> net := w \<rparr>))
          else if \<not> responseOk status then
            (case body of
               BodyText errorBody \<Rightarrow> (Inl (ApiError status errorBody), rt\<lparr> net := w \<rparr>)
             | BodyRejected code \<Rightarrow>
                 if attempt \<le> MAX_RETRIES \<and> transientCode code
                 then translateWithRetry fetch cfg txt (attempt + 1)
                        (delay (retryDelay attempt) (rt\<lparr> net := w \<rparr>))
                 else (Inl (FetchError code), rt\<lparr> net := w \<rparr>))
          else
            (case pl of
               JsonRejected code \<Rightarrow>
                 if attempt \<le> MAX_RETRIES \<and> transientCode code
                 then translateWithRetry fetch cfg txt (attempt + 1)
                        (delay (retryDelay attempt) (rt\<lparr> net := w \<rparr>))
                 else (Inl (FetchError code), rt\<lparr> net := w \<rparr>)
             | Json None \<Rightarrow> (Inl NoTranslationReturned, rt\<lparr> net := w \<rparr>)
             | Json (Some []) \<Rightarrow> (Inl NoTranslationReturned, rt\<lparr> net := w \<rparr>)
             | Json (Some (t # ts)) \<Rightarrow> (Inr t, rt\<lparr> net := w \<rparr>))
      | (Rejected code, w) \<Rightarrow>
          if attempt \<le> MAX_RETRIES \<and> transientCode code
          then translateWithRetry fetch cfg txt (attempt + 1)
                 (delay (retryDelay attempt) (rt\<lparr> net := w \<rparr>))
          else (Inl (FetchError code), rt\<lparr> net := w \<rparr>))"
  by pat_completeness auto
termination
  by (relation "measure (\<lambda>(fetch, cfg, txt, attempt, rt). Suc MAX_RETRIES - attempt)") auto

declare translateWithRetry.simps [simp del]

definition translateText ::
  "'w fetch \<Rightarrow> config \<Rightarrow> string \<Rightarrow> 'w runtime \<Rightarrow> (error + string) \<times> 'w runtime"
where
  "translateText fetch cfg txt rt =
     (if \<not> shouldTranslate txt then (Inr txt, rt)
      else
        let (protectedText, mp) = protectPlaceholders txt in
        if \<not> shouldTranslate protectedText then (Inr txt, rt)
        else
          (case translateWithRetry fetch cfg protectedText 1 rt of
             (Inl e, rt') \<Rightarrow> (Inl e, rt')
           | (Inr translatedText, rt') \<Rightarrow> (Inr (restorePlaceholders translatedText mp), rt')))"

text \<open>
  \<open>translateBatch\<close>. The progress callback is a function of the caller's; it either
  returns or throws, and it is called inside the \<open>try\<close> block, after the push.
\<close>

datatype completion = Returns | Throws

fun callProgress :: "(nat \<Rightarrow> nat \<Rightarrow> completion) option \<Rightarrow> nat \<Rightarrow> nat \<Rightarrow> completion" where
  "callProgress None current len = Returns"
| "callProgress (Some f) current len = f current len"

fun translateBatchFrom ::
  "'w fetch \<Rightarrow> config \<Rightarrow> (nat \<Rightarrow> nat \<Rightarrow> completion) option \<Rightarrow> nat \<Rightarrow> nat \<Rightarrow> string list \<Rightarrow>
     string list \<Rightarrow> 'w runtime \<Rightarrow> string list \<times> 'w runtime"
where
  "translateBatchFrom fetch cfg onProgress len i [] results rt = (results, rt)"
| "translateBatchFrom fetch cfg onProgress len i (t # ts) results rt =
     (case translateText fetch cfg t rt of
        (Inr translated, rt1) \<Rightarrow>
          (case callProgress onProgress (i + 1) len of
             Returns \<Rightarrow>
               translateBatchFrom fetch cfg onProgress len (i + 1) ts (results @ [translated])
                 (if i < len - 1 then delay 100 rt1 else rt1)
           | Throws \<Rightarrow>
               translateBatchFrom fetch cfg onProgress len (i + 1) ts
                 (results @ [translated] @ [t]) rt1)
      | (Inl e, rt1) \<Rightarrow>
          translateBatchFrom fetch cfg onProgress len (i + 1) ts (results @ [t]) rt1)"

definition translateBatch ::
  "'w fetch \<Rightarrow> config \<Rightarrow> string list \<Rightarrow> (nat \<Rightarrow> nat \<Rightarrow> completion) option \<Rightarrow> 'w runtime \<Rightarrow>
     string list \<times> 'w runtime"
where
  "translateBatch fetch cfg texts onProgress rt =
     translateBatchFrom fetch cfg onProgress (length texts) 0 texts [] rt"

section \<open>Parsed documents and the references into them\<close>

text \<open>
  What \<open>JSON.parse\<close>, \<open>YAML.parse\<close>, \<open>toml.parse\<close> and the XML parser return: a tree
  of plain values. An object is the list of its own properties in the order of
  \<open>Object.entries\<close>; the keys of a JavaScript object are unique (see \<open>wellFormed\<close>).
\<close>

datatype json =
    JNull
  | JBool bool
  | JNum int
  | JStr string
  | JArr "json list"
  | JObj "(string \<times> json) list"

text \<open>
  A property key as the collectors hold it: the number that \<open>forEach\<close> passes, or the
  string that \<open>Object.entries\<close> gives. Both name a property by \<open>propName\<close>; they
  differ in truthiness (\<open>0\<close> and the empty string are falsy).
\<close>

datatype prop_key = Index nat | Prop string

fun propName :: "prop_key \<Rightarrow> string" where
  "propName (Index i) = decimal i"
| "propName (Prop s) = s"

fun truthyKey :: "prop_key \<Rightarrow> bool" where
  "truthyKey (Index i) = (i \<noteq> 0)"
| "truthyKey (Prop s) = (s \<noteq> [])"

text \<open>A property name is an array index when it is the decimal numeral of a number.\<close>

definition arrayIndex :: "string \<Rightarrow> nat option" where
  "arrayIndex s =
     (if s \<noteq> [] \<and> list_all isDigit s \<and> decimal (parseDecimal s) = s
      then Some (parseDecimal s) else None)"

text \<open>\<open>obj[name]\<close> and \<open>obj[name] = v\<close> on a value of the tree.\<close>

fun getProp :: "json \<Rightarrow> string \<Rightarrow> json option" where
  "getProp (JObj kvs) name = map_of kvs name"
| "getProp (JArr xs) name =
     (case arrayIndex name of
        Some i \<Rightarrow> if i < length xs then Some (xs ! i) else None
      | None \<Rightarrow> None)"
| "getProp v name = None"

text \<open>
  An assignment past the end of an array lengthens it (the holes read as \<open>null\<close> once
  serialised); a name that is no index would add a named property to the array
  object, which a parsed document never has, and is left out.
\<close>

fun setProp :: "json \<Rightarrow> string \<Rightarrow> json \<Rightarrow> json" where
  "setProp (JObj kvs) name v = JObj (AList.update name v kvs)"
| "setProp (JArr xs) name v =
     (case arrayIndex name of
        Some i \<Rightarrow>
          if i < length xs then JArr (xs[i := v])
          else JArr (xs @ replicate (i - length xs) JNull @ [v])
      | None \<Rightarrow> JArr xs)"
| "setProp d name v = d"

text \<open>
  The collectors keep a reference to the container that holds a string (\<open>ref: parent\<close>)
  and write through it later. A reference is modelled by the place of the container
  in the tree: the property names on the way from the root.
\<close>

type_synonym path = "string list"

fun getAt :: "json \<Rightarrow> path \<Rightarrow> json option" where
  "getAt d [] = Some d"
| "getAt d (name # names) =
     (case getProp d name of None \<Rightarrow> None | Some c \<Rightarrow> getAt c names)"

fun updateAt :: "json \<Rightarrow> path \<Rightarrow> (json \<Rightarrow> json) \<Rightarrow> json" where
  "updateAt d [] f = f d"
| "updateAt d (name # names) f =
     (case getProp d name of None \<Rightarrow> d | Some c \<Rightarrow> setProp d name (updateAt c names f))"

record translation =
  val :: string
  ref :: path
  key :: prop_key

text \<open>\<open>item.ref[item.key] = translated\<close>, seen at the place \<open>r\<close> of the container.\<close>

definition assign :: "json \<Rightarrow> path \<Rightarrow> prop_key \<Rightarrow> string \<Rightarrow> json" where
  "assign data r k translated =
     updateAt data r (\<lambda>parent. setProp parent (propName k) (JStr translated))"

text \<open>
  A parsed document is the tree together with the sharing of its containers:
  \<open>YAML.parse\<close> returns one object for an anchor and for every alias of it, so the
  same object can stand at several places of the tree. \<open>aliases doc r\<close> lists all
  the places at which the object at \<open>r\<close> stands (with \<open>r\<close> itself); a write through a
  reference to the object shows at each of them. \<open>JSON.parse\<close>, \<open>toml.parse\<close> and
  the XML parser build every object anew: their documents are \<open>unshared\<close>.
\<close>

record document =
  tree :: json
  aliases :: "path \<Rightarrow> path list"

definition unshared :: "json \<Rightarrow> document" where
  "unshared data = \<lparr> tree = data, aliases = (\<lambda>r. [r]) \<rparr>"

text \<open>\<open>item.ref[item.key] = translated\<close> on a document.\<close>

definition assignRef :: "document \<Rightarrow> path \<Rightarrow> prop_key \<Rightarrow> string \<Rightarrow> document" where
  "assignRef doc r k translated =
     doc\<lparr> tree := fold (\<lambda>r' t. assign t r' k translated) (aliases doc r) (tree doc) \<rparr>"

text \<open>The place of a collected string: its container and its key.\<close>

definition place :: "translation \<Rightarrow> path" where
  "place item = ref item @ [propName (key item)]"

text \<open>
  The place of the value that a call of a collector holds in \<open>obj\<close>, from its
  \<open>parent\<close> and \<open>key\<close> arguments (both \<open>null\<close> at the root).
\<close>

fun location :: "path option \<Rightarrow> prop_key option \<Rightarrow> path" where
  "location (Some r) (Some k) = r @ [propName k]"
| "location parent k = []"

section \<open>The collectors of the handlers\<close>

text \<open>
  Each handler has its own \<open>collectTranslatableValues(obj, translations, parent, key)\<close>.
  The model returns what the call pushes, in order. A string is pushed only when
  the call was given a parent and a key: the first equation of each collector is the
  call from inside a container, the second one the call on a root that is a string.
\<close>

text \<open>jsonHandler.js: arrays by \<open>forEach\<close>, objects by \<open>Object.entries\<close>, test \<open>key !== null\<close>.\<close>

fun collectJson :: "json \<Rightarrow> path option \<Rightarrow> prop_key option \<Rightarrow> translation list"
  and collectJsonItems :: "json list \<Rightarrow> nat \<Rightarrow> path \<Rightarrow> translation list"
  and collectJsonEntries :: "(string \<times> json) list \<Rightarrow> path \<Rightarrow> translation list"
where
  "collectJson (JStr s) (Some r) (Some k) =
     (if length (trim s) > 0 then [\<lparr> val = s, ref = r, key = k \<rparr>] else [])"
| "collectJson (JStr s) parent k = []"
| "collectJson (JArr xs) parent k = collectJsonItems xs 0 (location parent k)"
| "collectJson (JObj kvs) parent k = collectJsonEntries kvs (location parent k)"
| "collectJson JNull parent k = []"
| "collectJson (JBool b) parent k = []"
| "collectJson (JNum n) parent k = []"
| "collectJsonItems [] i here = []"
| "collectJsonItems (x # xs) i here =
     collectJson x (Some here) (Some (Index i)) @ collectJsonItems xs (Suc i) here"
| "collectJsonEntries [] here = []"
| "collectJsonEntries ((name, v) # kvs) here =
     collectJson v (Some here) (Some (Prop name)) @ collectJsonEntries kvs here"

text \<open>
  yamlHandler.js: arrays and objects alike by \<open>Object.entries\<close>, so the key of an
  array element is the string of its index; test \<open>key !== null\<close>.
\<close>

fun collectYaml :: "json \<Rightarrow> path option \<Rightarrow> prop_key option \<Rightarrow> translation list"
  and collectYamlItems :: "json list \<Rightarrow> nat \<Rightarrow> path \<Rightarrow> translation list"
  and collectYamlEntries :: "(string \<times> json) list \<Rightarrow> path \<Rightarrow> translation list"
where
  "collectYaml (JStr s) (Some r) (Some k) =
     (if length (trim s) > 0 then [\<lparr> val = s, ref = r, key = k \<rparr>] else [])"
| "collectYaml (JStr s) parent k = []"
| "collectYaml (JArr xs) parent k = collectYamlItems xs 0 (location parent k)"
| "collectYaml (JObj kvs) parent k = collectYamlEntries kvs (location parent k)"
| "collectYaml JNull parent k = []"
| "collectYaml (JBool b) parent k = []"
| "collectYaml (JNum n) parent k = []"
| "collectYamlItems [] i here = []"
| "collectYamlItems (x # xs) i here =
     collectYaml x (Some here) (Some (Prop (decimal i))) @ collectYamlItems xs (Suc i) here"
| "collectYamlEntries [] here = []"
| "collectYamlEntries ((name, v) # kvs) here =
     collectYaml v (Some here) (Some (Prop name)) @ collectYamlEntries kvs here"

text \<open>
  tomlHandler.js: arrays by \<open>forEach\<close>, objects by \<open>Object.entries\<close>; the test is
  \<open>parent && key\<close>, the truthiness of the key.
\<close>

fun collectToml :: "json \<Rightarrow> path option \<Rightarrow> prop_key option \<Rightarrow> translation list"
  and collectTomlItems :: "json list \<Rightarrow> nat \<Rightarrow> path \<Rightarrow> translation list"
  and collectTomlEntries :: "(string \<times> json) list \<Rightarrow> path \<Rightarrow> translation list"
where
  "collectToml (JStr s) (Some r) (Some k) =
     (if length (trim s) > 0 \<and> truthyKey k then [\<lparr> val = s, ref = r, key = k \<rparr>] else [])"
| "collectToml (JStr s) parent k = []"
| "collectToml (JArr xs) parent k = collectTomlItems xs 0 (location parent k)"
| "collectToml (JObj kvs) parent k = collectTomlEntries kvs (location parent k)"
| "collectToml JNull parent k = []"
| "collectToml (JBool b) parent k = []"
| "collectToml (JNum n) parent k = []"
| "collectTomlItems [] i here = []"
| "collectTomlItems (x # xs) i here =
     collectToml x (Some here) (Some (Index i)) @ collectTomlItems xs (Suc i) here"
| "collectTomlEntries [] here = []"
| "collectTomlEntries ((name, v) # kvs) here =
     collectToml v (Some here) (Some (Prop name)) @ collectTomlEntries kvs here"

text \<open>
  xmlHandler.js: arrays and objects by \<open>Object.entries\<close>, without the entries whose
  key starts with \<open>@\<close> (attributes) or is \<open>#comment\<close>; the test is \<open>parent && key\<close>.
\<close>

definition skippedXmlKey :: "string \<Rightarrow> bool" where
  "skippedXmlKey name \<longleftrightarrow> prefix ''@'' name \<or> name = ''#comment''"

fun collectXml :: "json \<Rightarrow> path option \<Rightarrow> prop_key option \<Rightarrow> translation list"
  and collectXmlItems :: "json list \<Rightarrow> nat \<Rightarrow> path \<Rightarrow> translation list"
  and collectXmlEntries :: "(string \<times> json) list \<Rightarrow> path \<Rightarrow> translation list"
where
  "collectXml (JStr s) (Some r) (Some k) =
     (if length (trim s) > 0 \<and> truthyKey k then [\<lparr> val = s, ref = r, key = k \<rparr>] else [])"
| "collectXml (JStr s) parent k = []"
| "collectXml (JArr xs) parent k = collectXmlItems xs 0 (location parent k)"
| "collectXml (JObj kvs) parent k = collectXmlEntries kvs (location parent k)"
| "collectXml JNull parent k = []"
| "collectXml (JBool b) parent k = []"
| "collectXml (JNum n) parent k = []"
| "collectXmlItems [] i here = []"
| "collectXmlItems (x # xs) i here =
     (if \<not> skippedXmlKey (decimal i)
      then collectXml x (Some here) (Some (Prop (decimal i))) else [])
     @ collectXmlItems xs (Suc i) here"
| "collectXmlEntries [] here = []"
| "collectXmlEntries ((name, v) # kvs) here =
     (if \<not> skippedXmlKey name then collectXml v (Some here) (Some (Prop name)) else [])
     @ collectXmlEntries kvs here"

section \<open>The handlers\<close>

text \<open>
  The files, the service with the time slept, and the lines of \<open>console.error\<close> (the
  text of the failed string with the error). A write is taken to succeed.
\<close>

record 'w env =
  files :: "string \<Rightarrow> string option"
  runtime :: "'w runtime"
  console :: "(string \<times> error) list"

datatype job_error = ReadError | MalformedInput

text \<open>
  The body of the loop that every handler has: the string is translated and written
  through its reference, the whole document is serialised and written to the output
  path; when \<open>translateText\<close> throws, the \<open>catch\<close> block logs the error.
\<close>

definition translateItem ::
  "'w fetch \<Rightarrow> config \<Rightarrow> (document \<Rightarrow> string) \<Rightarrow> string \<Rightarrow> translation \<Rightarrow>
     document \<times> 'w env \<Rightarrow> document \<times> 'w env"
where
  "translateItem fetch cfg stringify outputPath item st =
     (case st of (data, e) \<Rightarrow>
        (case translateText fetch cfg (val item) (runtime e) of
           (Inr translated, rt) \<Rightarrow>
             (let data' = assignRef data (ref item) (key item) translated
              in (data', e\<lparr> files := (files e)(outputPath \<mapsto> stringify data'), runtime := rt \<rparr>))
         | (Inl err, rt) \<Rightarrow>
             (data, e\<lparr> runtime := rt, console := console e @ [(val item, err)] \<rparr>)))"

text \<open>The \<open>for\<close> loop over the collected strings.\<close>

definition translateItems ::
  "'w fetch \<Rightarrow> config \<Rightarrow> (document \<Rightarrow> string) \<Rightarrow> string \<Rightarrow> translation list \<Rightarrow>
     document \<times> 'w env \<Rightarrow> document \<times> 'w env"
where
  "translateItems fetch cfg stringify outputPath translations st =
     fold (translateItem fetch cfg stringify outputPath) translations st"

text \<open>
  The handlers take the parser and the serialiser of their format as parameters
  (\<open>None\<close> from the parser is its syntax error). Each returns normally or throws.
  The YAML parser gives a document with its sharing; the others give a tree.
\<close>

definition translateJsonFile ::
  "(string \<Rightarrow> json option) \<Rightarrow> (json \<Rightarrow> string) \<Rightarrow> 'w fetch \<Rightarrow> config \<Rightarrow> string \<Rightarrow> string \<Rightarrow> 'w env \<Rightarrow>
     (job_error + unit) \<times> 'w env"
where
  "translateJsonFile parse stringify fetch cfg inputPath outputPath e =
     (case files e inputPath of
        None \<Rightarrow> (Inl ReadError, e)
      | Some fileContent \<Rightarrow>
          (case parse fileContent of
             None \<Rightarrow> (Inl MalformedInput, e)
           | Some data \<Rightarrow>
               (let translations = collectJson data None None in
                if length translations = 0 then (Inr (), e)
                else (Inr (),
                  snd (translateItems fetch cfg (\<lambda>d. stringify (tree d)) outputPath translations
                         (unshared data, e))))))"

definition translateYamlFile ::
  "(string \<Rightarrow> document option) \<Rightarrow> (document \<Rightarrow> string) \<Rightarrow> 'w fetch \<Rightarrow> config \<Rightarrow> string \<Rightarrow> string \<Rightarrow> 'w env \<Rightarrow>
     (job_error + unit) \<times> 'w env"
where
  "translateYamlFile parse stringify fetch cfg inputPath outputPath e =
     (case files e inputPath of
        None \<Rightarrow> (Inl ReadError, e)
      | Some fileContent \<Rightarrow>
          (case parse fileContent of
             None \<Rightarrow> (Inl MalformedInput, e)
           | Some data \<Rightarrow>
               (let translations = collectYaml (tree data) None None in
                if length translations = 0 then (Inr (), e)
                else (Inr (),
                  snd (translateItems fetch cfg stringify outputPath translations
                         (data, e))))))"

definition translateTomlFile ::
  "(string \<Rightarrow> json option) \<Rightarrow> (json \<Rightarrow> string) \<Rightarrow> 'w fetch \<Rightarrow> config \<Rightarrow> string \<Rightarrow> string \<Rightarrow> 'w env \<Rightarrow>
     (job_error + unit) \<times> 'w env"
where
  "translateTomlFile parse stringify fetch cfg inputPath outputPath e =
     (case files e inputPath of
        None \<Rightarrow> (Inl ReadError, e)
      | Some fileContent \<Rightarrow>
          (case parse fileContent of
             None \<Rightarrow> (Inl MalformedInput, e)
           | Some data \<Rightarrow>
               (let translations = collectToml data None None in
                if length translations = 0
                then (Inr (), e\<lparr> files := (files e)(outputPath \<mapsto> fileContent) \<rparr>)
                else (Inr (),
                  snd (translateItems fetch cfg (\<lambda>d. stringify (tree d)) outputPath translations
                         (unshared data, e))))))"

definition translateXmlFile ::
  "(string \<Rightarrow> json option) \<Rightarrow> (json \<Rightarrow> string) \<Rightarrow> 'w fetch \<Rightarrow> config \<Rightarrow> string \<Rightarrow> string \<Rightarrow> 'w env \<Rightarrow>
     (job_error + unit) \<times> 'w env"
where
  "translateXmlFile parse stringify fetch cfg inputPath outputPath e =
     (case files e inputPath of
        None \<Rightarrow> (Inl ReadError, e)
      | Some fileContent \<Rightarrow>
          (case parse fileContent of
             None \<Rightarrow> (Inl MalformedInput, e)
           | Some data \<Rightarrow>
               (let translations = collectXml data None None in
                if length translations = 0
                then (Inr (), e\<lparr> files := (files e)(outputPath \<mapsto> fileContent) \<rparr>)
                else (Inr (),
                  snd (translateItems fetch cfg (\<lambda>d. stringify (tree d)) outputPath translations
                         (unshared data, e))))))"

text \<open>The keys of every object of a parsed document are distinct.\<close>

fun wellFormed :: "json \<Rightarrow> bool"
  and wellFormedItems :: "json list \<Rightarrow> bool"
  and wellFormedEntries :: "(string \<times> json) list \<Rightarrow> bool"
where
  "wellFormed (JArr xs) = wellFormedItems xs"
| "wellFormed (JObj kvs) = (distinct (map fst kvs) \<and> wellFormedEntries kvs)"
| "wellFormed JNull = True"
| "wellFormed (JBool b) = True"
| "wellFormed (JNum n) = True"
| "wellFormed (JStr s) = True"
| "wellFormedItems [] = True"
| "wellFormedItems (x # xs) = (wellFormed x \<and> wellFormedItems xs)"
| "wellFormedEntries [] = True"
| "wellFormedEntries ((name, v) # kvs) = (wellFormed v \<and> wellFormedEntries kvs)"

section \<open>Notions used in the proofs\<close>

text \<open>A placeholder is two opening brackets and this tail.\<close>

definition tokenTail :: "nat \<Rightarrow> string" where
  "tokenTail n = ''PROTECTED_'' @ decimal n @ '']]''"





text \<open>
  The text after the matches \<open>origs\<close> of one class were masked, one after the other,
  with the placeholders numbered from \<open>i\<close>, and the entries recorded for them.
\<close>

fun maskWith :: "nat \<Rightarrow> string list \<Rightarrow> string \<Rightarrow> string" where
  "maskWith i [] s = s"
| "maskWith i (orig # origs) s = maskWith (Suc i) origs (replace s orig (placeholderFor i))"

fun entriesFrom :: "nat \<Rightarrow> string list \<Rightarrow> placeholder_entry list" where
  "entriesFrom i [] = []"
| "entriesFrom i (orig # origs) =
     \<lparr> placeholder = placeholderFor i, original = orig, index = i \<rparr> # entriesFrom (Suc i) origs"


text \<open>
  Masking in place: the text is read from left to right; where the pattern matches,
  the match is left out and the next placeholder stands in its place, and the
  reading goes on behind the match.
\<close>

function maskScan :: "pattern \<Rightarrow> nat \<Rightarrow> string \<Rightarrow> string" where
  "maskScan p i [] = []"
| "maskScan p i (c # cs) =
     (case matchAt p (c # cs) of
        None \<Rightarrow> c # maskScan p i cs
      | Some n \<Rightarrow> placeholderFor i @ maskScan p (Suc i) (drop (max n 1) (c # cs)))"
  by pat_completeness auto
termination
  by (relation "measure (\<lambda>(p, i, s). length s)") auto

text \<open>
  The positions at which the matches of \<open>matchAll\<close> start, counted from \<open>k\<close> at the
  head of the text.
\<close>

function matchPositions :: "pattern \<Rightarrow> nat \<Rightarrow> string \<Rightarrow> nat list" where
  "matchPositions p k [] = []"
| "matchPositions p k (c # cs) =
     (case matchAt p (c # cs) of
        None \<Rightarrow> matchPositions p (Suc k) cs
      | Some n \<Rightarrow> k # matchPositions p (k + max n 1) (drop (max n 1) (c # cs)))"
  by pat_completeness auto
termination
  by (relation "measure (\<lambda>(p, k, s). length s)") auto

text \<open>
  No match of the pattern starts in \<open>done\<close> (the part of the text already read and
  masked) when the text \<open>s\<close> follows it.
\<close>

definition quiet :: "pattern \<Rightarrow> string \<Rightarrow> string \<Rightarrow> bool" where
  "quiet p done s \<longleftrightarrow> (\<forall>v. v \<noteq> [] \<and> suffix v done \<longrightarrow> matchAt p (v @ s) = None)"



text \<open>
  The failures that the client answers with a retry: the status 429, and a
  rejection with the code \<open>ECONNRESET\<close> or \<open>ETIMEDOUT\<close>, be it of \<open>fetch\<close> itself or
  of the read of the body that the status calls for (\<open>response.text()\<close> when the
  response is not ok, \<open>response.json()\<close> when it is).
\<close>

fun retryable :: "fetch_outcome \<Rightarrow> bool" where
  "retryable (Rejected code) = transientCode code"
| "retryable (Responded status body pl) =
     (status = 429 \<or>
      (if responseOk status
       then (case pl of JsonRejected code \<Rightarrow> transientCode code | Json ts \<Rightarrow> False)
       else (case body of BodyRejected code \<Rightarrow> transientCode code | BodyText errorBody \<Rightarrow> False)))"

text \<open>The outcomes of \<open>k\<close> calls of \<open>fetch\<close> in a row, and the state they leave.\<close>

fun fetchTimes :: "'w fetch \<Rightarrow> request \<Rightarrow> nat \<Rightarrow> 'w \<Rightarrow> fetch_outcome list \<times> 'w" where
  "fetchTimes fetch req 0 w = ([], w)"
| "fetchTimes fetch req (Suc k) w =
     (case fetch req w of (out, w1) \<Rightarrow>
        (case fetchTimes fetch req k w1 of (outs, w2) \<Rightarrow> (out # outs, w2)))"

text \<open>
  A transport for examples: it answers with the outcomes of a list, one per call.
\<close>

definition scripted :: "fetch_outcome list fetch" where
  "scripted req w = (case w of [] \<Rightarrow> (Rejected ''ENOTFOUND'', []) | out # outs \<Rightarrow> (out, outs))"

definition demoConfig :: config where
  "demoConfig = \<lparr> apiKey = ''key'', sourceLang = ''EN'', targetLang = ''DE'' \<rparr>"

text \<open>
  What \<open>translateBatch\<close> should hold at a position, and the outcome of
  \<open>translateText\<close> for each text in the state in which the loop reaches it.
\<close>

fun keepOrTranslated :: "string \<Rightarrow> error + string \<Rightarrow> string" where
  "keepOrTranslated t (Inr translated) = translated"
| "keepOrTranslated t (Inl e) = t"

fun batchOutcomes ::
  "'w fetch \<Rightarrow> config \<Rightarrow> nat \<Rightarrow> nat \<Rightarrow> string list \<Rightarrow> 'w runtime \<Rightarrow> (error + string) list"
where
  "batchOutcomes fetch cfg len i [] rt = []"
| "batchOutcomes fetch cfg len i (t # ts) rt =
     (case translateText fetch cfg t rt of
        (Inr translated, rt1) \<Rightarrow>
          Inr translated #
            batchOutcomes fetch cfg len (i + 1) ts (if i < len - 1 then delay 100 rt1 else rt1)
      | (Inl e, rt1) \<Rightarrow> Inl e # batchOutcomes fetch cfg len (i + 1) ts rt1)"


text \<open>
  A serialiser and a document for examples: three strings in one object, with a
  service that translates the first and the third and refuses the second.
\<close>

fun render :: "json \<Rightarrow> string" where
  "render JNull = ''null''"
| "render (JBool b) = (if b then ''true'' else ''false'')"
| "render (JNum n) = (if n < 0 then ''-'' else []) @ decimal (nat \<bar>n\<bar>)"
| "render (JStr s) = s"
| "render (JArr xs) = ''['' @ concat (map (\<lambda>x. render x @ '','') xs) @ '']''"
| "render (JObj kvs) = ''{'' @ concat (map (\<lambda>(name, v). name @ '':'' @ render v @ '','') kvs) @ ''}''"


definition demoDoc :: json where
  "demoDoc = JObj [(''a'', JStr ''One''), (''b'', JStr ''Two''), (''c'', JStr ''Three'')]"

definition demoItems :: "translation list" where
  "demoItems = [\<lparr> val = ''One'', ref = [], key = Prop ''a'' \<rparr>,
                \<lparr> val = ''Two'', ref = [], key = Prop ''b'' \<rparr>,
                \<lparr> val = ''Three'', ref = [], key = Prop ''c'' \<rparr>]"

definition demoEnv :: "fetch_outcome list env" where
  "demoEnv =
     \<lparr> files = [''in/doc'' \<mapsto> ''a: One, b: Two, c: Three''],
       runtime = \<lparr> net = [Responded 200 (BodyText []) (Json (Some [''Eins''])),
                         Responded 500 (BodyText ''Internal'') (Json None),
                         Responded 200 (BodyText []) (Json (Some [''Drei'']))], delays = [] \<rparr>,
       console = [] \<rparr>"

text \<open>The state of the loop of a handler after the first \<open>n\<close> strings.\<close>

definition stateAfter ::
  "'w fetch \<Rightarrow> config \<Rightarrow> (document \<Rightarrow> string) \<Rightarrow> string \<Rightarrow> translation list \<Rightarrow> nat \<Rightarrow>
     document \<times> 'w env \<Rightarrow> document \<times> 'w env"
where
  "stateAfter fetch cfg stringify outputPath translations n st =
     translateItems fetch cfg stringify outputPath (take n translations) st"

text \<open>
  A YAML document with an anchor and an alias,
  \<open>{first: &x {msg: Hello}, second: *x, last: Bye}\<close>: the object at \<open>first\<close> is the
  object at \<open>second\<close>. The service translates the first and the third string and
  refuses the second.
\<close>

definition renderDoc :: "document \<Rightarrow> string" where
  "renderDoc doc = render (tree doc)"

definition aliasDoc :: document where
  "aliasDoc =
     \<lparr> tree = JObj [(''first'', JObj [(''msg'', JStr ''Hello'')]),
                    (''second'', JObj [(''msg'', JStr ''Hello'')]),
                    (''last'', JStr ''Bye'')],
       aliases = (\<lambda>r. if r = [''first''] \<or> r = [''second''] then [[''first''], [''second'']]
                     else [r]) \<rparr>"

definition aliasEnv :: "fetch_outcome list env" where
  "aliasEnv =
     \<lparr> files = [''in/doc'' \<mapsto> ''first: &x {msg: Hello}, second: *x, last: Bye''],
       runtime = \<lparr> net = [Responded 200 (BodyText []) (Json (Some [''Hallo''])),
                         Responded 500 (BodyText ''Internal'') (Json None),
                         Responded 200 (BodyText []) (Json (Some [''Servus'']))], delays = [] \<rparr>,
       console = [] \<rparr>"

section \<open>Decimal numerals and placeholders\<close>

lemma of_char_digit: "k < 10 \<Longrightarrow> (of_char (char_of (48 + k :: nat)) :: nat) = 48 + k"
  by simp

lemma isDigit_char_of: "k < 10 \<Longrightarrow> isDigit (char_of (48 + k :: nat))"
  by (simp add: isDigit_def)

lemma decimal_digits: "list_all isDigit (decimal n)"
proof (induction n rule: decimal.induct)
  case (1 n)
  show ?case
  proof (cases "n < 10")
    case True
    then show ?thesis by (subst decimal.simps) (simp add: isDigit_char_of)
  next
    case False
    with 1 show ?thesis by (subst decimal.simps) (simp add: isDigit_char_of)
  qed
qed

lemma decimal_not_Nil: "decimal n \<noteq> []"
  by (subst decimal.simps) simp

lemma parseDecimal_snoc: "parseDecimal (s @ [c]) = 10 * parseDecimal s + (of_char c - 48)"
  by (simp add: parseDecimal_def)

lemma parseDecimal_decimal: "parseDecimal (decimal n) = n"
proof (induction n rule: decimal.induct)
  case (1 n)
  show ?case
  proof (cases "n < 10")
    case True
    then show ?thesis by (subst decimal.simps) (simp add: parseDecimal_def)
  next
    case False
    with 1 have "parseDecimal (decimal (n div 10)) = n div 10" by simp
    with False show ?thesis
      by (subst decimal.simps) (simp add: parseDecimal_snoc)
  qed
qed

lemma decimal_inj: "decimal m = decimal n \<Longrightarrow> m = n"
  by (metis parseDecimal_decimal)

lemma placeholderFor_shape: "placeholderFor n = CHR ''['' # CHR ''['' # tokenTail n"
  by (simp add: placeholderFor_def tokenTail_def)

lemma isDigit_not_bracket: "isDigit c \<Longrightarrow> c \<noteq> CHR ''['' \<and> c \<noteq> CHR '']'' \<and> c \<noteq> CHR ''$''"
  by (auto simp: isDigit_def)

lemma decimal_no_char: "\<not> isDigit c \<Longrightarrow> c \<notin> set (decimal n)"
  using decimal_digits [of n] by (auto simp: list_all_iff)



lemma placeholderFor_no_dollar: "CHR ''$'' \<notin> set (placeholderFor n)"
  using decimal_no_char [of "CHR ''$''" n] by (simp add: placeholderFor_def isDigit_def)









section \<open>Replacing and restoring\<close>

lemma getSubstitution_plain:
  "CHR ''$'' \<notin> set rep \<Longrightarrow> getSubstitution matched pre post rep = rep"
  by (induction matched pre post rep rule: getSubstitution.induct) auto

lemma splitAtFirst_Some:
  "splitAtFirst pat s = Some (pre, post) \<Longrightarrow> s = pre @ pat @ post"
proof (induction s arbitrary: pre)
  case Nil
  then show ?case by (simp split: if_splits)
next
  case (Cons c cs)
  show ?case
  proof (cases "prefix pat (c # cs)")
    case True
    with Cons.prems have "pre = []" "post = drop (length pat) (c # cs)" by simp_all
    moreover from True have "c # cs = pat @ drop (length pat) (c # cs)"
      by (auto simp: prefix_def)
    ultimately show ?thesis by simp
  next
    case False
    with Cons.prems obtain pre' where "splitAtFirst pat cs = Some (pre', post)" "pre = c # pre'"
      by auto
    with Cons.IH show ?thesis by simp
  qed
qed

lemma splitAtFirst_None: "splitAtFirst pat s = None \<Longrightarrow> \<not> sublist pat s"
proof (induction s)
  case Nil
  then show ?case by (simp split: if_splits)
next
  case (Cons c cs)
  then show ?case by (auto simp: sublist_Cons_right split: if_splits)
qed



text \<open>One step of masking and its inverse.\<close>

lemma replace_cases:
  "(\<not> sublist pat s \<and> replace s pat rep = s) \<or>
   (\<exists>pre post. s = pre @ pat @ post \<and> splitAtFirst pat s = Some (pre, post) \<and>
      replace s pat rep = pre @ getSubstitution pat pre post rep @ post)"
proof (cases "splitAtFirst pat s")
  case None
  then show ?thesis by (simp add: replace_def splitAtFirst_None)
next
  case (Some a)
  obtain pre post where "a = (pre, post)" by (cases a)
  with Some show ?thesis by (auto simp: replace_def dest: splitAtFirst_Some)
qed







section \<open>The steps of the masking, written out\<close>

lemma fold_protectMatch:
  "fold protectMatch ms st =
     \<lparr> protectedText = maskWith (placeholderIndex st) ms (protectedText st),
       placeholderMap = placeholderMap st @ entriesFrom (placeholderIndex st) ms,
       placeholderIndex = placeholderIndex st + length ms \<rparr>"
  by (induction ms arbitrary: st) (simp_all add: protectMatch_def)

lemma protectPattern_explicit:
  "protectPattern p st =
     \<lparr> protectedText = maskWith (placeholderIndex st) (matchAll p (protectedText st)) (protectedText st),
       placeholderMap = placeholderMap st @ entriesFrom (placeholderIndex st) (matchAll p (protectedText st)),
       placeholderIndex = placeholderIndex st + length (matchAll p (protectedText st)) \<rparr>"
  by (simp add: protectPattern_def fold_protectMatch)

section \<open>Masking and restoring are inverse (C2)\<close>











text \<open>
  The dollar sign: \<open>{$&}\<close> is masked as one placeholder, and \<open>replace\<close> reads
  \<open>$&\<close> in the text it puts back as "the matched text", the placeholder itself.
  The masked match is not a plain replacement, so the theorem does not speak of it.
\<close>

lemma restore_dollar_ampersand:
  "restorePlaceholders (fst (protectPlaceholders ''{$&}'')) (snd (protectPlaceholders ''{$&}''))
   = ''{[[PROTECTED_0]]}''"
  by code_simp

section \<open>What \<open>shouldTranslate\<close> decides (C6)\<close>

lemma trim_Nil_iff: "trim s = [] \<longleftrightarrow> (\<forall>c \<in> set s. isWhiteSpace c)"
proof -
  have "trim s = [] \<longleftrightarrow> (\<forall>c \<in> set (dropWhile isWhiteSpace s). isWhiteSpace c)"
    by (simp add: trim_def dropWhile_eq_Nil_conv)
  also have "\<dots> \<longleftrightarrow> dropWhile isWhiteSpace s = []"
  proof
    assume all: "\<forall>c \<in> set (dropWhile isWhiteSpace s). isWhiteSpace c"
    show "dropWhile isWhiteSpace s = []"
    proof (rule ccontr)
      assume ne: "dropWhile isWhiteSpace s \<noteq> []"
      then have "\<not> isWhiteSpace (hd (dropWhile isWhiteSpace s))" by (rule hd_dropWhile)
      moreover have "hd (dropWhile isWhiteSpace s) \<in> set (dropWhile isWhiteSpace s)"
        using ne by simp
      ultimately show False using all by blast
    qed
  next
    assume "dropWhile isWhiteSpace s = []"
    then show "\<forall>c \<in> set (dropWhile isWhiteSpace s). isWhiteSpace c"
      by (simp only: list.set ball_empty)
  qed
  also have "\<dots> \<longleftrightarrow> (\<forall>c \<in> set s. isWhiteSpace c)"
    by (simp add: dropWhile_eq_Nil_conv)
  finally show ?thesis .
qed

lemma placeholderFor_not_blank: "\<exists>c \<in> set (placeholderFor i). \<not> isWhiteSpace c"
  by (rule bexI [of _ "CHR ''[''"]) (simp_all add: placeholderFor_shape isWhiteSpace_def)

lemma replace_placeholder_not_blank:
  assumes "\<exists>c \<in> set s. \<not> isWhiteSpace c"
  shows "\<exists>c \<in> set (replace s orig (placeholderFor i)). \<not> isWhiteSpace c"
proof -
  consider (none) "replace s orig (placeholderFor i) = s"
    | (found) pre post where
        "replace s orig (placeholderFor i) = pre @ getSubstitution orig pre post (placeholderFor i) @ post"
    using replace_cases [of orig s "placeholderFor i"] by blast
  then show ?thesis
  proof cases
    case none
    with assms show ?thesis by simp
  next
    case found
    then have "replace s orig (placeholderFor i) = pre @ placeholderFor i @ post"
      by (simp add: getSubstitution_plain placeholderFor_no_dollar)
    then show ?thesis using placeholderFor_not_blank [of i] by auto
  qed
qed

lemma not_blank_matches:
  "\<exists>c \<in> set (protectedText st). \<not> isWhiteSpace c \<Longrightarrow>
   \<exists>c \<in> set (protectedText (fold protectMatch ms st)). \<not> isWhiteSpace c"
proof (induction ms arbitrary: st)
  case Nil
  then show ?case by simp
next
  case (Cons m ms)
  have "\<exists>c \<in> set (protectedText (protectMatch m st)). \<not> isWhiteSpace c"
    using Cons.prems by (simp add: protectMatch_def replace_placeholder_not_blank)
  then show ?case using Cons.IH by simp
qed

lemma not_blank_patterns:
  "\<exists>c \<in> set (protectedText st). \<not> isWhiteSpace c \<Longrightarrow>
   \<exists>c \<in> set (protectedText (fold protectPattern ps st)). \<not> isWhiteSpace c"
proof (induction ps arbitrary: st)
  case Nil
  then show ?case by simp
next
  case (Cons p ps)
  have "\<exists>c \<in> set (protectedText (protectPattern p st)). \<not> isWhiteSpace c"
    using Cons.prems by (simp add: protectPattern_def not_blank_matches)
  then show ?case using Cons.IH by simp
qed

lemma protect_not_blank:
  assumes "trim t \<noteq> []"
  shows "trim (fst (protectPlaceholders t)) \<noteq> []"
proof -
  from assms have ex: "\<exists>c \<in> set t. \<not> isWhiteSpace c" by (simp add: trim_Nil_iff)
  then have "t \<noteq> []" by auto
  moreover have "\<exists>c \<in> set (protectedText (fold protectPattern PROTECTED_PATTERNS
      \<lparr> protectedText = t, placeholderMap = [], placeholderIndex = 0 \<rparr>)). \<not> isWhiteSpace c"
    using ex by (intro not_blank_patterns) simp
  ultimately show ?thesis by (simp add: protectPlaceholders_def Let_def trim_Nil_iff)
qed

lemma trim_Nil [simp]: "trim [] = []"
  by (simp add: trim_def)

lemma shouldTranslate_iff_not_blank: "shouldTranslate t \<longleftrightarrow> trim t \<noteq> []"
  using protect_not_blank [of t] by (auto simp: shouldTranslate_def)

text \<open>
  So the third test of \<open>shouldTranslate\<close> never fires: a text that is not blank is
  masked into a text that is not blank, because a placeholder is not white space.
\<close>

text \<open>
  Claim C6 says that \<open>shouldTranslate\<close> is false for a text made of protected
  patterns and white space only, in particular for \<open>&a\<close>, \<open>{player}\<close> and
  \<open>&a{player}\<close>. The code returns true for all three, as it does for
  \<open>&aHello {player}\<close>: the masked text of \<open>&a{player}\<close> is
  \<open>[[PROTECTED_0]][[PROTECTED_1]]\<close>, which \<open>trim\<close> leaves as it is.
\<close>

theorem shouldTranslate_bare_codes:
  "shouldTranslate ''&a'' \<and> shouldTranslate ''{player}'' \<and> shouldTranslate ''&a{player}'' \<and>
   shouldTranslate ''&aHello {player}'' \<and>
   fst (protectPlaceholders ''&a{player}'') = ''[[PROTECTED_0]][[PROTECTED_1]]''"
  by code_simp

section \<open>Order and numbering of the placeholders (C8)\<close>







subsection \<open>Where a pattern can match\<close>

lemma takeWhile_shorter: "x \<in> set xs \<Longrightarrow> \<not> P x \<Longrightarrow> length (takeWhile P xs) < length xs"
  by (induction xs) auto

lemma matchTwo_Some: "matchTwo f g s = Some n \<longleftrightarrow> n = 2 \<and> (\<exists>a b cs. s = a # b # cs \<and> f a \<and> g b)"
  by (cases "(f, g, s)" rule: matchTwo.cases) auto

lemma matchBraces_unfold:
  "matchBraces (a # cs) =
     (if a = CHR ''{'' \<and> takeWhile (\<lambda>c. c \<noteq> CHR ''}'') cs \<noteq> [] \<and>
         length (takeWhile (\<lambda>c. c \<noteq> CHR ''}'') cs) < length cs
      then Some (length (takeWhile (\<lambda>c. c \<noteq> CHR ''}'') cs) + 2) else None)"
  by (simp add: Let_def)

declare matchBraces.simps(2) [simp del]

lemma takeWhile_until:
  assumes "x \<notin> set body"
  shows "takeWhile (\<lambda>c. c \<noteq> x) (body @ x # r) = body"
  using assms by (induction body) auto

lemma split_at_brace:
  assumes "length (takeWhile (\<lambda>c. c \<noteq> x) cs) < length cs"
  shows "\<exists>r. cs = takeWhile (\<lambda>c. c \<noteq> x) cs @ x # r"
  using assms by (induction cs) auto

lemma matchBraces_Some:
  "matchBraces s = Some n \<longleftrightarrow>
     (\<exists>body r. s = CHR ''{'' # body @ CHR ''}'' # r \<and> body \<noteq> [] \<and> CHR ''}'' \<notin> set body \<and>
        n = length body + 2)"
proof (cases s)
  case Nil
  then show ?thesis by simp
next
  case (Cons a cs)
  let ?body = "takeWhile (\<lambda>c. c \<noteq> CHR ''}'') cs"
  show ?thesis
  proof
    assume m: "matchBraces s = Some n"
    have cond: "a = CHR ''{'' \<and> ?body \<noteq> [] \<and> length ?body < length cs"
    proof (rule ccontr)
      assume "\<not> (a = CHR ''{'' \<and> ?body \<noteq> [] \<and> length ?body < length cs)"
      then have "matchBraces (a # cs) = None" by (simp only: matchBraces_unfold if_False)
      with m Cons show False by simp
    qed
    then have "matchBraces (a # cs) = Some (length ?body + 2)"
      by (simp add: matchBraces_unfold)
    with m Cons have n: "n = length ?body + 2" by simp
    from cond obtain r where r: "cs = ?body @ CHR ''}'' # r"
      using split_at_brace [of "CHR ''}''" cs] by blast
    have "CHR ''}'' \<notin> set ?body"
      using set_takeWhileD [of "CHR ''}''" "\<lambda>c. c \<noteq> CHR ''}''" cs] by blast
    with Cons cond n r show "\<exists>body r. s = CHR ''{'' # body @ CHR ''}'' # r \<and> body \<noteq> [] \<and>
        CHR ''}'' \<notin> set body \<and> n = length body + 2"
      by (intro exI [of _ ?body] exI [of _ r]) simp
  next
    assume "\<exists>body r. s = CHR ''{'' # body @ CHR ''}'' # r \<and> body \<noteq> [] \<and>
        CHR ''}'' \<notin> set body \<and> n = length body + 2"
    then obtain body r where s: "s = CHR ''{'' # body @ CHR ''}'' # r" and ne: "body \<noteq> []"
      and nb: "CHR ''}'' \<notin> set body" and n: "n = length body + 2"
      by blast
    have "takeWhile (\<lambda>c. c \<noteq> CHR ''}'') (body @ CHR ''}'' # r) = body"
      using nb by (rule takeWhile_until)
    with s ne n show "matchBraces s = Some n" by (simp add: matchBraces_unfold)
  qed
qed

lemma matchAt_bounds: "matchAt p s = Some n \<Longrightarrow> 2 \<le> n \<and> n \<le> length s"
  by (cases p) (auto simp: matchTwo_Some matchBraces_Some)

lemma matchAt_stable:
  assumes "matchAt p s = Some n" and "prefix (take n s) x"
  shows "matchAt p x = Some n"
proof -
  from assms(2) obtain r where x: "x = take n s @ r" by (auto simp: prefix_def)
  show ?thesis
  proof (cases p)
    case NamedPlaceholder
    with assms(1) obtain body r' where s: "s = CHR ''{'' # body @ CHR ''}'' # r'" "body \<noteq> []"
      "CHR ''}'' \<notin> set body" "n = length body + 2"
      by (auto simp: matchBraces_Some)
    then have "x = CHR ''{'' # body @ CHR ''}'' # r" using x by simp
    with s have "matchBraces x = Some n" using matchBraces_Some [of x n] by blast
    with NamedPlaceholder show ?thesis by simp
  qed (use assms(1) x in \<open>auto simp: matchTwo_Some\<close>)
qed

lemma placeholder_chars:
  assumes "c \<in> set (placeholderFor i)"
  shows "c \<noteq> CHR ''&'' \<and> c \<noteq> CHR ''%'' \<and> c \<noteq> CHR ''{''"
proof -
  have "c \<in> set ''[[PROTECTED_]]'' \<or> c \<in> set (decimal i)"
    using assms by (auto simp: placeholderFor_def)
  then show ?thesis
  proof
    assume "c \<in> set ''[[PROTECTED_]]''"
    then show ?thesis by auto
  next
    assume "c \<in> set (decimal i)"
    then have "isDigit c" using decimal_digits [of i] by (simp add: list_all_iff)
    then show ?thesis by (auto simp: isDigit_def)
  qed
qed

lemma matchAt_wrong_start:
  assumes "c \<noteq> CHR ''&''" and "c \<noteq> CHR ''%''" and "c \<noteq> CHR ''{''"
  shows "matchAt p (c # r) = None"
proof (cases "matchAt p (c # r)")
  case (Some n)
  with assms show ?thesis by (cases p) (auto simp: matchTwo_Some matchBraces_Some)
qed simp

lemma matchAt_inside_placeholder:
  assumes "v \<noteq> []" and "suffix v (placeholderFor i)"
  shows "matchAt p (v @ r) = None"
proof -
  obtain c v' where v: "v = c # v'" using assms(1) by (cases v) auto
  with assms(2) have "c \<in> set (placeholderFor i)"
    by (auto simp: suffix_def)
  then show ?thesis using v placeholder_chars matchAt_wrong_start by simp
qed

lemma second_char_bracket:
  "\<not> isColorCodeChar CHR ''[''" "\<not> isPrintfChar CHR ''[''"
  by (simp_all add: isColorCodeChar_def isPrintfChar_def)

lemma matchTwo_before_placeholder:
  assumes "w \<noteq> []" and "matchTwo f g (w @ s) = None" and "\<not> g CHR ''[''"
  shows "matchTwo f g (w @ placeholderFor i @ s') = None"
proof (cases w)
  case Nil
  with assms(1) show ?thesis by simp
next
  case (Cons c w')
  show ?thesis
  proof (cases w')
    case Nil
    with Cons assms(3) show ?thesis by (simp add: placeholderFor_shape)
  next
    case (Cons d w'')
    with \<open>w = c # w'\<close> assms(2) show ?thesis by (simp split: if_splits)
  qed
qed

lemma matchBraces_before_placeholder:
  assumes "w \<noteq> []" and "matchBraces (w @ s) = None" and "matchBraces s = Some n"
  shows "matchBraces (w @ placeholderFor i @ s') = None"
proof (cases "matchBraces (w @ placeholderFor i @ s')")
  case None
  then show ?thesis .
next
  case (Some k)
  then obtain body r where after: "w @ placeholderFor i @ s' = CHR ''{'' # body @ CHR ''}'' # r"
    and ne: "body \<noteq> []" and nb: "CHR ''}'' \<notin> set body"
    by (auto simp: matchBraces_Some)
  obtain body0 r0 where s: "s = CHR ''{'' # body0 @ CHR ''}'' # r0" and nb0: "CHR ''}'' \<notin> set body0"
    using assms(3) by (auto simp: matchBraces_Some)
  obtain w' where w: "w = CHR ''{'' # w'" using after assms(1) by (cases w) auto
  have first: "w' = [] \<or> hd w' \<noteq> CHR ''}''"
  proof (cases w')
    case (Cons x w'')
    with w after ne have "x = hd body" by (cases body) auto
    moreover from ne nb have "hd body \<noteq> CHR ''}''" by (cases body) auto
    ultimately show ?thesis using Cons by simp
  qed simp
  let ?rest = "w' @ s"
  let ?b = "takeWhile (\<lambda>c. c \<noteq> CHR ''}'') ?rest"
  have "?b \<noteq> []"
  proof (cases w')
    case Nil
    then show ?thesis using s by simp
  next
    case (Cons x w'')
    with first show ?thesis by simp
  qed
  moreover have "length ?b < length ?rest"
  proof -
    have "CHR ''}'' \<in> set ?rest" using s by simp
    then show ?thesis by (intro takeWhile_shorter [of "CHR ''}''"]) simp_all
  qed
  ultimately have "matchBraces (w @ s) \<noteq> None"
    using w by (simp add: matchBraces_unfold)
  with assms(2) show ?thesis by simp
qed

lemma matchAt_before_placeholder:
  assumes "w \<noteq> []" and "matchAt p (w @ s) = None" and "matchAt p s = Some n"
  shows "matchAt p (w @ placeholderFor i @ s') = None"
proof (cases p)
  case NamedPlaceholder
  with assms show ?thesis using matchBraces_before_placeholder by simp
qed (use assms in \<open>simp_all add: matchTwo_before_placeholder second_char_bracket\<close>)

subsection \<open>Each match is masked where it stands\<close>

lemma splitAtFirst_first:
  assumes "m \<noteq> []" and "\<forall>v. v \<noteq> [] \<and> suffix v done \<longrightarrow> \<not> prefix m (v @ m @ s')"
  shows "splitAtFirst m (done @ m @ s') = Some (done, s')"
  using assms(2)
proof (induction "done")
  case Nil
  obtain c cs where "m @ s' = c # cs" using assms(1) by (cases m) auto
  moreover have "prefix m (m @ s')" by simp
  ultimately show ?case by (metis append_Nil append_eq_conv_conj splitAtFirst.simps(2))
next
  case (Cons x d)
  have "\<not> prefix m ((x # d) @ m @ s')"
    using Cons.prems [rule_format, of "x # d"] by simp
  moreover have "\<forall>v. v \<noteq> [] \<and> suffix v d \<longrightarrow> \<not> prefix m (v @ m @ s')"
    using Cons.prems by (simp add: suffix_Cons)
  ultimately show ?case using Cons.IH by simp
qed

lemma quiet_Nil: "quiet p [] s"
  by (simp add: quiet_def)

lemma quiet_skip:
  assumes "quiet p done (c # cs)" and "matchAt p (c # cs) = None"
  shows "quiet p (done @ [c]) cs"
  unfolding quiet_def
proof (intro allI impI)
  fix v assume v: "v \<noteq> [] \<and> suffix v (done @ [c])"
  then obtain w where w: "v = w @ [c]" "suffix w done" by auto
  show "matchAt p (v @ cs) = None"
  proof (cases "w = []")
    case True
    with w assms(2) show ?thesis by simp
  next
    case False
    with w assms(1) show ?thesis by (simp add: quiet_def)
  qed
qed

lemma quiet_masked:
  assumes "quiet p done s" and "matchAt p s = Some n"
  shows "quiet p (done @ placeholderFor i) s'"
  unfolding quiet_def
proof (intro allI impI)
  fix v assume v: "v \<noteq> [] \<and> suffix v (done @ placeholderFor i)"
  then have ne: "v \<noteq> []" and suf: "suffix v (done @ placeholderFor i)" by blast+
  from suf have "suffix v (placeholderFor i) \<or> (\<exists>w. v = w @ placeholderFor i \<and> suffix w done)"
    unfolding suffix_append by blast
  then show "matchAt p (v @ s') = None"
  proof
    assume "suffix v (placeholderFor i)"
    with ne show ?thesis by (rule matchAt_inside_placeholder)
  next
    assume "\<exists>w. v = w @ placeholderFor i \<and> suffix w done"
    then obtain w where w: "v = w @ placeholderFor i" "suffix w done" by blast
    show ?thesis
    proof (cases "w = []")
      case True
      with w have "suffix v (placeholderFor i)" by simp
      with ne show ?thesis by (rule matchAt_inside_placeholder)
    next
      case False
      with w(2) assms(1) have "matchAt p (w @ s) = None" unfolding quiet_def by blast
      with False have "matchAt p (w @ placeholderFor i @ s') = None"
        using assms(2) by (rule matchAt_before_placeholder)
      with w(1) show ?thesis by simp
    qed
  qed
qed

lemma maskWith_matchAll:
  assumes "quiet p done s"
  shows "maskWith i (matchAll p s) (done @ s) = done @ maskScan p i s"
  using assms
proof (induction p s arbitrary: "done" i rule: matchAll.induct)
  case (1 p)
  then show ?case by simp
next
  case (2 p c cs)
  show ?case
  proof (cases "matchAt p (c # cs)")
    case None
    have "quiet p (done @ [c]) cs" using "2.prems" None by (rule quiet_skip)
    then have "maskWith i (matchAll p cs) ((done @ [c]) @ cs) = (done @ [c]) @ maskScan p i cs"
      using None by (intro "2.IH"(1))
    with None show ?thesis by simp
  next
    case (Some n)
    let ?m = "take n (c # cs)"
    let ?s' = "drop n (c # cs)"
    from Some have n: "2 \<le> n" "n \<le> length (c # cs)" using matchAt_bounds by blast+
    then have max: "max n 1 = n" by simp
    have split: "c # cs = ?m @ ?s'" by simp
    have m_ne: "?m \<noteq> []" using n by auto
    have early: "\<forall>v. v \<noteq> [] \<and> suffix v done \<longrightarrow> \<not> prefix ?m (v @ ?m @ ?s')"
    proof (intro allI impI notI)
      fix v assume v: "v \<noteq> [] \<and> suffix v done" and pre: "prefix ?m (v @ ?m @ ?s')"
      from Some pre have "matchAt p (v @ ?m @ ?s') = Some n" by (rule matchAt_stable)
      moreover from v "2.prems" have "matchAt p (v @ c # cs) = None" by (simp add: quiet_def)
      ultimately show False by simp
    qed
    have "splitAtFirst ?m (done @ ?m @ ?s') = Some (done, ?s')"
      using m_ne early by (rule splitAtFirst_first)
    then have "replace (done @ ?m @ ?s') ?m (placeholderFor i) = done @ placeholderFor i @ ?s'"
      by (simp add: replace_def getSubstitution_plain placeholderFor_no_dollar)
    then have rep: "replace (done @ c # cs) ?m (placeholderFor i) = (done @ placeholderFor i) @ ?s'"
      by simp
    have "quiet p (done @ placeholderFor i) ?s'" using "2.prems" Some by (rule quiet_masked)
    then have "maskWith (Suc i) (matchAll p (drop (max n 1) (c # cs)))
          ((done @ placeholderFor i) @ drop (max n 1) (c # cs))
        = (done @ placeholderFor i) @ maskScan p (Suc i) (drop (max n 1) (c # cs))"
      using Some max by (intro "2.IH"(2)) simp_all
    with Some max rep show ?thesis by simp
  qed
qed

lemma maskWith_in_place: "maskWith i (matchAll p s) s = maskScan p i s"
  using maskWith_matchAll [where ?done = "[]" and p = p and s = s and i = i] quiet_Nil by simp

lemma protectPattern_in_place:
  "protectedText (protectPattern p st) = maskScan p (placeholderIndex st) (protectedText st)"
  by (simp add: protectPattern_explicit maskWith_in_place)

subsection \<open>The matches of \<open>matchAll\<close>, from left to right\<close>


lemma length_matchPositions: "length (matchPositions p k s) = length (matchAll p s)"
proof (induction p k s rule: matchPositions.induct)
  case (1 p k)
  then show ?case by simp
next
  case (2 p k c cs)
  then show ?case by (cases "matchAt p (c # cs)") simp_all
qed








section \<open>Retries of the client (C3, C9)\<close>

lemma responseOk_not_429: "responseOk status \<Longrightarrow> status \<noteq> 429"
  by (auto simp: responseOk_def)

lemma retry_api_error:
  assumes "fetch (mkRequest cfg txt) (net rt) = (Responded status (BodyText errorBody) pl, w)"
    and "status \<noteq> 429" and "\<not> responseOk status"
  shows "translateWithRetry fetch cfg txt attempt rt
     = (Inl (ApiError status errorBody), rt\<lparr> net := w \<rparr>)"
  using assms by (subst translateWithRetry.simps) simp

lemma retry_no_translation:
  assumes "fetch (mkRequest cfg txt) (net rt) = (Responded status body (Json ts), w)"
    and "responseOk status" and "ts = None \<or> ts = Some []"
  shows "translateWithRetry fetch cfg txt attempt rt = (Inl NoTranslationReturned, rt\<lparr> net := w \<rparr>)"
  using assms responseOk_not_429 [of status] by (subst translateWithRetry.simps) auto

lemma retry_success:
  assumes "fetch (mkRequest cfg txt) (net rt) = (Responded status body (Json (Some (tr # trs))), w)"
    and "responseOk status"
  shows "translateWithRetry fetch cfg txt attempt rt = (Inr tr, rt\<lparr> net := w \<rparr>)"
  using assms responseOk_not_429 [of status] by (subst translateWithRetry.simps) auto

lemma retry_again:
  assumes "fetch (mkRequest cfg txt) (net rt) = (out, w)" and "retryable out" and "attempt \<le> 3"
  shows "translateWithRetry fetch cfg txt attempt rt =
     translateWithRetry fetch cfg txt (attempt + 1) (delay (retryDelay attempt) (rt\<lparr> net := w \<rparr>))"
proof (cases out)
  case (Rejected code)
  with assms show ?thesis
    by (subst translateWithRetry.simps) (simp add: MAX_RETRIES_def)
next
  case (Responded status body pl)
  with assms show ?thesis
    by (subst translateWithRetry.simps)
       (auto simp: MAX_RETRIES_def split: body.splits payload.splits if_splits)
qed

lemma retry_exhausted:
  assumes "fetch (mkRequest cfg txt) (net rt) = (out, w)" and "retryable out" and "attempt > 3"
  shows "\<exists>e. translateWithRetry fetch cfg txt attempt rt = (Inl e, rt\<lparr> net := w \<rparr>)"
proof (cases out)
  case (Rejected code)
  with assms show ?thesis
    by (subst translateWithRetry.simps) (simp add: MAX_RETRIES_def)
next
  case (Responded status body pl)
  with assms show ?thesis
    by (subst translateWithRetry.simps)
       (auto simp: MAX_RETRIES_def split: body.splits payload.splits if_splits)
qed

lemma retry_not_retryable:
  assumes "\<not> retryable (fst (fetch (mkRequest cfg txt) (net rt)))"
  shows "snd (translateWithRetry fetch cfg txt attempt rt)
     = rt\<lparr> net := snd (fetch (mkRequest cfg txt) (net rt)) \<rparr>"
proof (cases "fetch (mkRequest cfg txt) (net rt)")
  case (Pair out w)
  show ?thesis
  proof (cases out)
    case (Rejected code)
    with Pair assms show ?thesis by (subst translateWithRetry.simps) auto
  next
    case (Responded status body pl)
    with Pair assms show ?thesis
      by (subst translateWithRetry.simps)
         (auto split: body.splits payload.splits option.splits list.splits if_splits)
  qed
qed

lemma fetchTimes_Suc:
  assumes "fetchTimes fetch req (Suc k) w = (outs, w2)"
  obtains out w1 outs' where "fetch req w = (out, w1)" "fetchTimes fetch req k w1 = (outs', w2)"
    "outs = out # outs'"
  using assms by (auto split: prod.splits)

lemma retries_then_success:
  assumes "fetchTimes fetch (mkRequest cfg txt) k (net rt) = (outs, w)"
    and "list_all retryable outs"
    and "fetch (mkRequest cfg txt) w = (Responded status body (Json (Some (tr # trs))), w')"
    and "responseOk status"
    and "a + k \<le> 4"
  shows "translateWithRetry fetch cfg txt a rt =
     (Inr tr, \<lparr> net = w', delays = delays rt @ map retryDelay [a..<a + k] \<rparr>)"
  using assms(1,2,5)
proof (induction k arbitrary: a rt outs)
  case 0
  then have "net rt = w" by simp
  with assms(3,4) have "translateWithRetry fetch cfg txt a rt = (Inr tr, rt\<lparr> net := w' \<rparr>)"
    by (intro retry_success) auto
  then show ?case by simp
next
  case (Suc k)
  from Suc.prems(1) obtain out w1 outs' where
    first: "fetch (mkRequest cfg txt) (net rt) = (out, w1)"
    and rest: "fetchTimes fetch (mkRequest cfg txt) k w1 = (outs', w)"
    and outs: "outs = out # outs'"
    by (rule fetchTimes_Suc)
  let ?rt1 = "delay (retryDelay a) (rt\<lparr> net := w1 \<rparr>)"
  have "translateWithRetry fetch cfg txt a rt = translateWithRetry fetch cfg txt (a + 1) ?rt1"
    using first Suc.prems(2,3) outs by (intro retry_again) auto
  moreover have "translateWithRetry fetch cfg txt (a + 1) ?rt1 =
     (Inr tr, \<lparr> net = w', delays = delays ?rt1 @ map retryDelay [a + 1..<a + 1 + k] \<rparr>)"
    using rest Suc.prems(2,3) outs by (intro Suc.IH [of ?rt1 outs']) (auto simp: delay_def)
  moreover have "[a..<a + Suc k] = a # [a + 1..<a + 1 + k]"
    by (simp add: upt_conv_Cons)
  ultimately show ?case by (simp add: delay_def)
qed

lemma retries_exhausted:
  assumes "fetchTimes fetch (mkRequest cfg txt) k (net rt) = (outs, w)"
    and "list_all retryable outs"
    and "4 < a + k" and "a \<le> 4"
  shows "\<exists>e rt'. translateWithRetry fetch cfg txt a rt = (Inl e, rt') \<and>
     delays rt' = delays rt @ map retryDelay [a..<4]"
  using assms
proof (induction k arbitrary: a rt outs)
  case 0
  then show ?case by simp
next
  case (Suc k)
  from Suc.prems(1) obtain out w1 outs' where
    first: "fetch (mkRequest cfg txt) (net rt) = (out, w1)"
    and rest: "fetchTimes fetch (mkRequest cfg txt) k w1 = (outs', w)"
    and outs: "outs = out # outs'"
    by (rule fetchTimes_Suc)
  have out: "retryable out" using Suc.prems(2) outs by simp
  show ?case
  proof (cases "a = 4")
    case True
    then have "3 < a" by simp
    with first out have "\<exists>e. translateWithRetry fetch cfg txt a rt = (Inl e, rt\<lparr> net := w1 \<rparr>)"
      by (rule retry_exhausted)
    with True show ?thesis by auto
  next
    case False
    let ?rt1 = "delay (retryDelay a) (rt\<lparr> net := w1 \<rparr>)"
    from False Suc.prems(4) have a: "a \<le> 3" by simp
    have step: "translateWithRetry fetch cfg txt a rt = translateWithRetry fetch cfg txt (a + 1) ?rt1"
      using first out a by (rule retry_again)
    have "\<exists>e rt'. translateWithRetry fetch cfg txt (a + 1) ?rt1 = (Inl e, rt') \<and>
       delays rt' = delays ?rt1 @ map retryDelay [a + 1..<4]"
      using rest Suc.prems(2,3) outs a by (intro Suc.IH [of ?rt1 outs']) (auto simp: delay_def)
    moreover have "[a..<4] = a # [a + 1..<4]"
      using a by (simp add: upt_conv_Cons)
    ultimately show ?thesis using step by (auto simp: delay_def)
  qed
qed

lemma retryDelay_values: "map retryDelay [1, 2, 3] = [1000, 2000, 4000]"
  by (simp add: retryDelay_def INITIAL_RETRY_DELAY_def MAX_RETRY_DELAY_def)

lemma upt_1_4: "[1..<4] = [1, 2, 3::nat]"
  by (simp add: upt_conv_Cons)

text \<open>
  Claim C3. When the transport fails \<open>k\<close> times in a row with the status 429 or with
  a transient network error (\<open>ECONNRESET\<close>, \<open>ETIMEDOUT\<close>, from \<open>fetch\<close> or from the
  read of the body) and then answers with a
  translation, \<open>translateWithRetry\<close> returns the translation if \<open>k \<le> 3\<close> and throws if
  \<open>k > 3\<close>. Before the retry that follows attempt \<open>a\<close> it waits
  \<open>min(1000 * 2^(a-1), 10000)\<close> milliseconds: the waits are the first \<open>k\<close> of
  1000, 2000, 4000, and all three of them when it gives up.
\<close>

theorem retry_bound:
  assumes "fetchTimes fetch (mkRequest cfg txt) k (net rt) = (outs, w)"
    and "list_all retryable outs"
    and "fetch (mkRequest cfg txt) w = (Responded status body (Json (Some (tr # trs))), w')"
    and "responseOk status"
  shows "(k \<le> 3 \<longrightarrow>
            translateWithRetry fetch cfg txt 1 rt =
              (Inr tr, \<lparr> net = w', delays = delays rt @ map retryDelay [1..<Suc k] \<rparr>)) \<and>
         (3 < k \<longrightarrow>
            (\<exists>e rt'. translateWithRetry fetch cfg txt 1 rt = (Inl e, rt') \<and>
               delays rt' = delays rt @ [1000, 2000, 4000])) \<and>
         (\<forall>a. retryDelay a = min (1000 * 2 ^ (a - 1)) 10000) \<and>
         map retryDelay [1, 2, 3] = [1000, 2000, 4000]"
proof -
  have "k \<le> 3 \<longrightarrow>
      translateWithRetry fetch cfg txt 1 rt =
        (Inr tr, \<lparr> net = w', delays = delays rt @ map retryDelay [1..<Suc k] \<rparr>)"
    using retries_then_success [OF assms, of 1] by simp
  moreover have "3 < k \<longrightarrow>
      (\<exists>e rt'. translateWithRetry fetch cfg txt 1 rt = (Inl e, rt') \<and>
         delays rt' = delays rt @ [1000, 2000, 4000])"
    using retries_exhausted [OF assms(1,2), of 1] retryDelay_values upt_1_4 by simp
  moreover have "\<forall>a. retryDelay a = min (1000 * 2 ^ (a - 1)) 10000"
    by (simp add: retryDelay_def INITIAL_RETRY_DELAY_def MAX_RETRY_DELAY_def)
  ultimately show ?thesis using retryDelay_values by blast
qed

text \<open>
  The theorem at two failures followed by a translation, and at four failures.
\<close>

theorem retry_bound_witness:
  "translateWithRetry scripted demoConfig ''Hello'' 1
     \<lparr> net = [Responded 429 (BodyText []) (Json None), Rejected ''ECONNRESET'',
              Responded 200 (BodyText []) (Json (Some [''Hallo'']))], delays = [] \<rparr>
     = (Inr ''Hallo'', \<lparr> net = [], delays = [1000, 2000] \<rparr>) \<and>
   (\<exists>e rt'. translateWithRetry scripted demoConfig ''Hello'' 1
       \<lparr> net = [Responded 429 (BodyText []) (Json None), Responded 429 (BodyText []) (Json None), Rejected ''ETIMEDOUT'',
                Responded 429 (BodyText []) (Json None), Responded 200 (BodyText []) (Json (Some [''Hallo'']))],
         delays = [] \<rparr> = (Inl e, rt') \<and> delays rt' = [1000, 2000, 4000])"
proof -
  let ?ok = "Responded 200 (BodyText []) (Json (Some [''Hallo'']))"
  let ?two = "[Responded 429 (BodyText []) (Json None), Rejected ''ECONNRESET'']"
  let ?four = "[Responded 429 (BodyText []) (Json None), Responded 429 (BodyText []) (Json None), Rejected ''ETIMEDOUT'',
                Responded 429 (BodyText []) (Json None)]"
  have ok: "responseOk 200" by (simp add: responseOk_def)
  have last: "scripted (mkRequest demoConfig ''Hello'') [?ok] = (?ok, [])"
    by (simp add: scripted_def)
  have two: "fetchTimes scripted (mkRequest demoConfig ''Hello'') 2
      (net \<lparr> net = ?two @ [?ok], delays = [] \<rparr>) = (?two, [?ok])"
    by (simp add: scripted_def numeral_2_eq_2)
  have four: "fetchTimes scripted (mkRequest demoConfig ''Hello'') 4
      (net \<lparr> net = ?four @ [?ok], delays = [] \<rparr>) = (?four, [?ok])"
    by (simp add: scripted_def numeral_eq_Suc)
  have r2: "list_all retryable ?two" by (simp add: transientCode_def)
  have r4: "list_all retryable ?four" by (simp add: transientCode_def)
  have d: "map retryDelay [1..<Suc 2] = [1000, 2000]"
    by (simp add: retryDelay_def INITIAL_RETRY_DELAY_def MAX_RETRY_DELAY_def upt_conv_Cons)
  show ?thesis
    using retry_bound [OF two r2 last ok] retry_bound [OF four r4 last ok] d by simp
qed

text \<open>
  Claim C9, amended. A response that is neither successful nor 429 and whose error
  body is read makes \<open>translateWithRetry\<close> throw at once, with the status and the
  body in the error: \<open>fetch\<close> was called once and nothing was waited for. The same
  holds for a successful response whose JSON body is read and whose list of
  translations is missing or empty. Whenever the outcome of the first call is not
  retryable (no status 429, no rejection with a transient code), there is no second
  call and no wait. And every retryable outcome is retried while the attempts last,
  also a rejected read of the body of a response that is not 429.
\<close>

theorem no_retry_on_other_failures:
  "(fetch (mkRequest cfg txt) (net rt) = (Responded status (BodyText errorBody) pl, w) \<and>
      status \<noteq> 429 \<and> \<not> responseOk status \<longrightarrow>
        translateWithRetry fetch cfg txt attempt rt
          = (Inl (ApiError status errorBody), rt\<lparr> net := w \<rparr>)) \<and>
   (fetch (mkRequest cfg txt) (net rt) = (Responded status body (Json ts), w) \<and>
      responseOk status \<and> (ts = None \<or> ts = Some []) \<longrightarrow>
        translateWithRetry fetch cfg txt attempt rt
          = (Inl NoTranslationReturned, rt\<lparr> net := w \<rparr>)) \<and>
   (\<not> retryable (fst (fetch (mkRequest cfg txt) (net rt))) \<longrightarrow>
        snd (translateWithRetry fetch cfg txt attempt rt)
          = rt\<lparr> net := snd (fetch (mkRequest cfg txt) (net rt)) \<rparr>) \<and>
   (retryable (fst (fetch (mkRequest cfg txt) (net rt))) \<and> attempt \<le> 3 \<longrightarrow>
        translateWithRetry fetch cfg txt attempt rt
          = translateWithRetry fetch cfg txt (attempt + 1)
              (delay (retryDelay attempt)
                 (rt\<lparr> net := snd (fetch (mkRequest cfg txt) (net rt)) \<rparr>)))"
proof (intro conjI impI)
  assume "fetch (mkRequest cfg txt) (net rt) = (Responded status (BodyText errorBody) pl, w) \<and>
      status \<noteq> 429 \<and> \<not> responseOk status"
  then show "translateWithRetry fetch cfg txt attempt rt
      = (Inl (ApiError status errorBody), rt\<lparr> net := w \<rparr>)"
    by (intro retry_api_error) simp_all
next
  assume "fetch (mkRequest cfg txt) (net rt) = (Responded status body (Json ts), w) \<and>
      responseOk status \<and> (ts = None \<or> ts = Some [])"
  then show "translateWithRetry fetch cfg txt attempt rt
      = (Inl NoTranslationReturned, rt\<lparr> net := w \<rparr>)"
    by (intro retry_no_translation [where ts = ts and status = status and body = body]) simp_all
next
  assume "\<not> retryable (fst (fetch (mkRequest cfg txt) (net rt)))"
  then show "snd (translateWithRetry fetch cfg txt attempt rt)
      = rt\<lparr> net := snd (fetch (mkRequest cfg txt) (net rt)) \<rparr>"
    by (rule retry_not_retryable)
next
  assume a: "retryable (fst (fetch (mkRequest cfg txt) (net rt))) \<and> attempt \<le> 3"
  obtain out w where f: "fetch (mkRequest cfg txt) (net rt) = (out, w)"
    by (cases "fetch (mkRequest cfg txt) (net rt)")
  with a have "retryable out" "attempt \<le> 3" by simp_all
  with f have "translateWithRetry fetch cfg txt attempt rt =
     translateWithRetry fetch cfg txt (attempt + 1) (delay (retryDelay attempt) (rt\<lparr> net := w \<rparr>))"
    by (rule retry_again)
  with f show "translateWithRetry fetch cfg txt attempt rt
      = translateWithRetry fetch cfg txt (attempt + 1)
          (delay (retryDelay attempt) (rt\<lparr> net := snd (fetch (mkRequest cfg txt) (net rt)) \<rparr>))"
    by simp
qed

text \<open>
  The theorem at a 403, at an empty list of translations, at a failed lookup and at
  a connection that is reset before the response.
\<close>

theorem no_retry_on_other_failures_witness:
  "translateWithRetry scripted demoConfig ''Hello'' 1
     \<lparr> net = [Responded 403 (BodyText ''Forbidden'') (Json None),
              Responded 200 (BodyText []) (Json (Some [''Hallo'']))],
       delays = [] \<rparr>
     = (Inl (ApiError 403 ''Forbidden''),
        \<lparr> net = [Responded 200 (BodyText []) (Json (Some [''Hallo'']))], delays = [] \<rparr>) \<and>
   translateWithRetry scripted demoConfig ''Hello'' 1
     \<lparr> net = [Responded 200 (BodyText []) (Json (Some [])),
              Responded 200 (BodyText []) (Json (Some [''Hallo'']))],
       delays = [] \<rparr>
     = (Inl NoTranslationReturned,
        \<lparr> net = [Responded 200 (BodyText []) (Json (Some [''Hallo'']))], delays = [] \<rparr>) \<and>
   snd (translateWithRetry scripted demoConfig ''Hello'' 1
     \<lparr> net = [Rejected ''ENOTFOUND'', Responded 200 (BodyText []) (Json (Some [''Hallo'']))],
       delays = [] \<rparr>)
     = \<lparr> net = [Responded 200 (BodyText []) (Json (Some [''Hallo'']))], delays = [] \<rparr> \<and>
   translateWithRetry scripted demoConfig ''Hello'' 1
     \<lparr> net = [Rejected ''ECONNRESET'', Responded 200 (BodyText []) (Json (Some [''Hallo'']))],
       delays = [] \<rparr>
     = translateWithRetry scripted demoConfig ''Hello'' 2
         \<lparr> net = [Responded 200 (BodyText []) (Json (Some [''Hallo'']))], delays = [1000] \<rparr>"
proof -
  let ?ok = "Responded 200 (BodyText []) (Json (Some [''Hallo'']))"
  let ?req = "mkRequest demoConfig ''Hello''"
  let ?forbidden = "Responded 403 (BodyText ''Forbidden'') (Json None)"
  let ?empty = "Responded 200 (BodyText []) (Json (Some []))"
  have a: "scripted ?req (net \<lparr> net = [?forbidden, ?ok], delays = [] \<rparr>)
      = (?forbidden, [?ok]) \<and> (403::nat) \<noteq> 429 \<and> \<not> responseOk 403"
    by (simp add: scripted_def responseOk_def)
  have b: "scripted ?req (net \<lparr> net = [?empty, ?ok], delays = [] \<rparr>)
      = (?empty, [?ok]) \<and> responseOk 200 \<and>
        (Some [] = None \<or> Some ([] :: string list) = Some [])"
    by (simp add: scripted_def responseOk_def)
  have c: "\<not> retryable (fst (scripted ?req
      (net \<lparr> net = [Rejected ''ENOTFOUND'', ?ok], delays = [] \<rparr>)))"
    by (simp add: scripted_def transientCode_def)
  have c': "snd (scripted ?req (net \<lparr> net = [Rejected ''ENOTFOUND'', ?ok], delays = [] \<rparr>)) = [?ok]"
    by (simp add: scripted_def)
  from a have "translateWithRetry scripted demoConfig ''Hello'' 1
      \<lparr> net = [?forbidden, ?ok], delays = [] \<rparr>
      = (Inl (ApiError 403 ''Forbidden''), \<lparr> net = [?ok], delays = [] \<rparr>)"
    using no_retry_on_other_failures
      [where fetch = scripted and cfg = demoConfig and ?txt.0 = "''Hello''"
         and rt = "\<lparr> net = [?forbidden, ?ok], delays = [] \<rparr>"
         and status = 403 and errorBody = "''Forbidden''" and pl = "Json None" and w = "[?ok]"
         and attempt = 1]
    by simp
  moreover from b have "translateWithRetry scripted demoConfig ''Hello'' 1
      \<lparr> net = [?empty, ?ok], delays = [] \<rparr>
      = (Inl NoTranslationReturned, \<lparr> net = [?ok], delays = [] \<rparr>)"
    using no_retry_on_other_failures
      [where fetch = scripted and cfg = demoConfig and ?txt.0 = "''Hello''"
         and rt = "\<lparr> net = [?empty, ?ok], delays = [] \<rparr>"
         and status = 200 and body = "BodyText []" and ts = "Some []" and w = "[?ok]"
         and attempt = 1]
    by simp
  moreover from c c' have "snd (translateWithRetry scripted demoConfig ''Hello'' 1
      \<lparr> net = [Rejected ''ENOTFOUND'', ?ok], delays = [] \<rparr>) = \<lparr> net = [?ok], delays = [] \<rparr>"
    using no_retry_on_other_failures
      [where fetch = scripted and cfg = demoConfig and ?txt.0 = "''Hello''"
         and rt = "\<lparr> net = [Rejected ''ENOTFOUND'', ?ok], delays = [] \<rparr>" and attempt = 1]
    by simp
  moreover have "translateWithRetry scripted demoConfig ''Hello'' 1
      \<lparr> net = [Rejected ''ECONNRESET'', ?ok], delays = [] \<rparr>
      = translateWithRetry scripted demoConfig ''Hello'' 2 \<lparr> net = [?ok], delays = [1000] \<rparr>"
    using no_retry_on_other_failures
      [where fetch = scripted and cfg = demoConfig and ?txt.0 = "''Hello''"
         and rt = "\<lparr> net = [Rejected ''ECONNRESET'', ?ok], delays = [] \<rparr>" and attempt = 1]
    by (simp add: scripted_def transientCode_def delay_def retryDelay_def
          INITIAL_RETRY_DELAY_def MAX_RETRY_DELAY_def numeral_2_eq_2)
  ultimately show ?thesis by simp
qed

text \<open>
  A response with the status 500 is not surfaced at once when the connection is reset
  while \<open>response.text()\<close> reads the error body: the rejection has the code
  \<open>ECONNRESET\<close>, the \<open>catch\<close> block waits a second and calls the service again,
  and the caller gets the translation of the second call.
\<close>

theorem error_response_retried_on_broken_body:
  "translateWithRetry scripted demoConfig ''Hello'' 1
     \<lparr> net = [Responded 500 (BodyRejected ''ECONNRESET'') (Json None),
              Responded 200 (BodyText []) (Json (Some [''Hallo'']))],
       delays = [] \<rparr>
   = (Inr ''Hallo'', \<lparr> net = [], delays = [1000] \<rparr>)"
  by code_simp

section \<open>The batch keeps its positions (C10)\<close>

lemma length_batchOutcomes: "length (batchOutcomes fetch cfg len i ts rt) = length ts"
  by (induction ts arbitrary: i rt) (auto split: prod.splits sum.splits)

lemma translateBatchFrom_results:
  assumes "\<forall>current n. callProgress onProgress current n = Returns"
  shows "fst (translateBatchFrom fetch cfg onProgress len i ts results rt)
     = results @ map2 keepOrTranslated ts (batchOutcomes fetch cfg len i ts rt)"
proof (induction ts arbitrary: i results rt)
  case Nil
  then show ?case by simp
next
  case (Cons t ts)
  obtain r rt1 where tr: "translateText fetch cfg t rt = (r, rt1)"
    by (cases "translateText fetch cfg t rt")
  show ?case
  proof (cases r)
    case (Inl e)
    with tr Cons.IH [of "i + 1" "results @ [t]" rt1] show ?thesis by simp
  next
    case (Inr translated)
    with tr assms
      Cons.IH [of "i + 1" "results @ [translated]" "if i < len - 1 then delay 100 rt1 else rt1"]
    show ?thesis by simp
  qed
qed

text \<open>
  With a progress callback that is absent or returns normally, \<open>translateBatch\<close>
  returns a list as long as its input; position \<open>i\<close> holds the translation of
  \<open>texts[i]\<close> when \<open>translateText\<close> returned one, and \<open>texts[i]\<close> itself when it
  threw.
\<close>

lemma translateBatch_positions:
  assumes "\<forall>current n. callProgress onProgress current n = Returns"
  shows "length (fst (translateBatch fetch cfg texts onProgress rt)) = length texts \<and>
         length (batchOutcomes fetch cfg (length texts) 0 texts rt) = length texts \<and>
         (\<forall>i < length texts.
            fst (translateBatch fetch cfg texts onProgress rt) ! i =
              (case batchOutcomes fetch cfg (length texts) 0 texts rt ! i of
                 Inr translated \<Rightarrow> translated
               | Inl e \<Rightarrow> texts ! i))"
proof -
  let ?outs = "batchOutcomes fetch cfg (length texts) 0 texts rt"
  have res: "fst (translateBatch fetch cfg texts onProgress rt) = map2 keepOrTranslated texts ?outs"
    using translateBatchFrom_results [OF assms, of fetch cfg "length texts" 0 texts "[]" rt]
    by (simp add: translateBatch_def)
  have len: "length ?outs = length texts" by (rule length_batchOutcomes)
  have "\<forall>i < length texts. map2 keepOrTranslated texts ?outs ! i =
      (case ?outs ! i of Inr translated \<Rightarrow> translated | Inl e \<Rightarrow> texts ! i)"
  proof (intro allI impI)
    fix i assume "i < length texts"
    with len have "map2 keepOrTranslated texts ?outs ! i = keepOrTranslated (texts ! i) (?outs ! i)"
      by simp
    then show "map2 keepOrTranslated texts ?outs ! i =
      (case ?outs ! i of Inr translated \<Rightarrow> translated | Inl e \<Rightarrow> texts ! i)"
      by (cases "?outs ! i") simp_all
  qed
  with res len show ?thesis by simp
qed

text \<open>
  Claim C10 fails for a callback that throws. The callback is called inside the
  \<open>try\<close> block, after the push: one that throws sends the loop into the \<open>catch\<close>
  block, which pushes the original text as well. For the one text \<open>Hello\<close>, translated
  to \<open>Hallo\<close>, the result has two elements.
\<close>

theorem translateBatch_throwing_callback:
  "fst (translateBatch scripted demoConfig [''Hello''] (Some (\<lambda>current n. Throws))
     \<lparr> net = [Responded 200 (BodyText []) (Json (Some [''Hallo'']))], delays = [] \<rparr>)
   = [''Hallo'', ''Hello'']"
  by code_simp

section \<open>Reading and writing through a reference\<close>

lemma arrayIndex_decimal: "arrayIndex (decimal i) = Some i"
  by (simp add: arrayIndex_def decimal_not_Nil decimal_digits parseDecimal_decimal)

lemma arrayIndex_Some: "arrayIndex s = Some i \<Longrightarrow> s = decimal i"
  by (auto simp: arrayIndex_def split: if_splits)

lemma getProp_setProp:
  assumes "getProp d n = Some c"
  shows "getProp (setProp d n v) n' = (if n' = n then Some v else getProp d n')"
proof (cases d)
  case (JObj kvs)
  then show ?thesis by (simp add: update_conv')
next
  case (JArr xs)
  from assms JArr obtain i where i: "arrayIndex n = Some i" "i < length xs"
    by (auto split: option.splits if_splits)
  show ?thesis
  proof (cases "arrayIndex n'")
    case None
    with i JArr show ?thesis by auto
  next
    case (Some j)
    then have "n' = decimal j" by (rule arrayIndex_Some)
    moreover from i have "n = decimal i" by (simp add: arrayIndex_Some)
    ultimately have "n' = n \<longleftrightarrow> j = i" by (auto dest: decimal_inj)
    with i JArr Some show ?thesis by auto
  qed
qed (use assms in simp_all)

lemma getProp_JStr [simp]: "getProp (JStr s) n = None"
  by simp

lemma getAt_JStr: "getAt (JStr s) q = Some c \<Longrightarrow> q = []"
  by (cases q) simp_all

lemma getAt_append: "getAt d (p @ q) = (case getAt d p of None \<Rightarrow> None | Some c \<Rightarrow> getAt c q)"
  by (induction p arbitrary: d) (auto split: option.splits)

lemma getAt_assign_same:
  assumes "getAt d (r @ [n]) = Some c"
  shows "getAt (updateAt d r (\<lambda>parent. setProp parent n v)) (r @ [n]) = Some v"
  using assms
proof (induction r arbitrary: d)
  case Nil
  then have "getProp d n = Some c" by (simp split: option.splits)
  then show ?case by (simp add: getProp_setProp)
next
  case (Cons m r)
  from Cons.prems obtain c' where c': "getProp d m = Some c'" "getAt c' (r @ [n]) = Some c"
    by (auto split: option.splits)
  with Cons.IH [of c'] show ?case by (simp add: getProp_setProp)
qed

lemma getAt_assign_other:
  assumes "getAt d q = Some (JStr s)" and "getAt d (r @ [n]) = Some (JStr s0)" and "q \<noteq> r @ [n]"
  shows "getAt (updateAt d r (\<lambda>parent. setProp parent n v)) q = Some (JStr s)"
  using assms
proof (induction r arbitrary: d q)
  case Nil
  from Nil.prems(2) have n: "getProp d n = Some (JStr s0)" by (simp split: option.splits)
  show ?case
  proof (cases q)
    case Nil
    with Nil.prems(1) n show ?thesis by simp
  next
    case (Cons n' q')
    show ?thesis
    proof (cases "n' = n")
      case True
      with Nil.prems(1) Cons n have "getAt (JStr s0) q' = Some (JStr s)" by simp
      then have "q' = []" by (rule getAt_JStr)
      with True Cons Nil.prems(3) show ?thesis by simp
    next
      case False
      with Nil.prems(1) Cons n show ?thesis by (simp add: getProp_setProp)
    qed
  qed
next
  case (Cons m r)
  from Cons.prems(2) obtain c where c: "getProp d m = Some c" "getAt c (r @ [n]) = Some (JStr s0)"
    by (auto split: option.splits)
  show ?case
  proof (cases q)
    case Nil
    with Cons.prems(1) c show ?thesis by simp
  next
    case (Cons n' q')
    show ?thesis
    proof (cases "n' = m")
      case True
      with Cons.prems(1) Cons c have "getAt c q' = Some (JStr s)" by simp
      moreover from True Cons Cons.prems(3) have "q' \<noteq> r @ [n]" by simp
      ultimately have "getAt (updateAt c r (\<lambda>parent. setProp parent n v)) q' = Some (JStr s)"
        using c(2) by (intro Cons.IH)
      with True Cons c show ?thesis by (simp add: getProp_setProp)
    next
      case False
      with Cons.prems(1) Cons c show ?thesis by (simp add: getProp_setProp)
    qed
  qed
qed

section \<open>Where the collected strings are\<close>

text \<open>
  Every string that the JSON collector returns sits at its place in the document, is
  not blank, and no two of them share a place. The same holds for the YAML collector.
\<close>

lemma place_simp [simp]: "place \<lparr> val = s, ref = r, key = k \<rparr> = r @ [propName k]"
  by (simp add: place_def)

lemma collectJson_places:
  "\<forall>item \<in> set (collectJson x parent k).
     \<exists>q. place item = location parent k @ q \<and> trim (val item) \<noteq> [] \<and>
       (wellFormed x \<longrightarrow> getAt x q = Some (JStr (val item)))"
  "\<forall>item \<in> set (collectJsonItems xs i here).
     \<exists>j q. j < length xs \<and> place item = here @ decimal (i + j) # q \<and> trim (val item) \<noteq> [] \<and>
       (wellFormedItems xs \<longrightarrow> getAt (xs ! j) q = Some (JStr (val item)))"
  "\<forall>item \<in> set (collectJsonEntries kvs here).
     \<exists>name v q. (name, v) \<in> set kvs \<and> place item = here @ name # q \<and> trim (val item) \<noteq> [] \<and>
       (wellFormedEntries kvs \<longrightarrow> getAt v q = Some (JStr (val item)))"
proof (induction x parent k and xs i here and kvs here
    rule: collectJson_collectJsonItems_collectJsonEntries.induct)
  case (3 xs parent k)
  show ?case
  proof
    fix item assume "item \<in> set (collectJson (JArr xs) parent k)"
    then have "item \<in> set (collectJsonItems xs 0 (location parent k))" by simp
    with 3 obtain j q where jq: "j < length xs" "place item = location parent k @ decimal j # q"
      "trim (val item) \<noteq> []"
      "wellFormedItems xs \<longrightarrow> getAt (xs ! j) q = Some (JStr (val item))"
      by fastforce
    then have "wellFormed (JArr xs) \<longrightarrow> getAt (JArr xs) (decimal j # q) = Some (JStr (val item))"
      by (simp add: arrayIndex_decimal)
    with jq show "\<exists>q. place item = location parent k @ q \<and> trim (val item) \<noteq> [] \<and>
       (wellFormed (JArr xs) \<longrightarrow> getAt (JArr xs) q = Some (JStr (val item)))"
      by blast
  qed
next
  case (4 kvs parent k)
  show ?case
  proof
    fix item assume "item \<in> set (collectJson (JObj kvs) parent k)"
    then have "item \<in> set (collectJsonEntries kvs (location parent k))" by simp
    with 4 obtain name v q where nq: "(name, v) \<in> set kvs"
      "place item = location parent k @ name # q" "trim (val item) \<noteq> []"
      "wellFormedEntries kvs \<longrightarrow> getAt v q = Some (JStr (val item))"
      by fastforce
    then have "wellFormed (JObj kvs) \<longrightarrow> getAt (JObj kvs) (name # q) = Some (JStr (val item))"
      by simp
    with nq show "\<exists>q. place item = location parent k @ q \<and> trim (val item) \<noteq> [] \<and>
       (wellFormed (JObj kvs) \<longrightarrow> getAt (JObj kvs) q = Some (JStr (val item)))"
      by blast
  qed
next
  case (9 x xs i here)
  show ?case
  proof
    fix item assume "item \<in> set (collectJsonItems (x # xs) i here)"
    then consider (head) "item \<in> set (collectJson x (Some here) (Some (Index i)))"
      | (tail) "item \<in> set (collectJsonItems xs (Suc i) here)"
      by auto
    then show "\<exists>j q. j < length (x # xs) \<and> place item = here @ decimal (i + j) # q \<and>
       trim (val item) \<noteq> [] \<and>
       (wellFormedItems (x # xs) \<longrightarrow> getAt ((x # xs) ! j) q = Some (JStr (val item)))"
    proof cases
      case head
      with 9(1) obtain q where "place item = here @ decimal i # q" "trim (val item) \<noteq> []"
        "wellFormed x \<longrightarrow> getAt x q = Some (JStr (val item))"
        by fastforce
      then show ?thesis by (intro exI [of _ 0] exI [of _ q]) simp
    next
      case tail
      with 9(2) obtain j q where "j < length xs" "place item = here @ decimal (Suc i + j) # q"
        "trim (val item) \<noteq> []"
        "wellFormedItems xs \<longrightarrow> getAt (xs ! j) q = Some (JStr (val item))"
        by fastforce
      then show ?thesis by (intro exI [of _ "Suc j"] exI [of _ q]) simp
    qed
  qed
next
  case (11 name v kvs here)
  show ?case
  proof
    fix item assume "item \<in> set (collectJsonEntries ((name, v) # kvs) here)"
    then consider (head) "item \<in> set (collectJson v (Some here) (Some (Prop name)))"
      | (tail) "item \<in> set (collectJsonEntries kvs here)"
      by auto
    then show "\<exists>name' v' q. (name', v') \<in> set ((name, v) # kvs) \<and>
       place item = here @ name' # q \<and> trim (val item) \<noteq> [] \<and>
       (wellFormedEntries ((name, v) # kvs) \<longrightarrow> getAt v' q = Some (JStr (val item)))"
    proof cases
      case head
      with 11(1) obtain q where "place item = here @ name # q" "trim (val item) \<noteq> []"
        "wellFormed v \<longrightarrow> getAt v q = Some (JStr (val item))"
        by fastforce
      then show ?thesis by (intro exI [of _ name] exI [of _ v] exI [of _ q]) simp
    next
      case tail
      with 11(2) obtain name' v' q where "(name', v') \<in> set kvs" "place item = here @ name' # q"
        "trim (val item) \<noteq> []"
        "wellFormedEntries kvs \<longrightarrow> getAt v' q = Some (JStr (val item))"
        by fastforce
      then show ?thesis by (intro exI [of _ name'] exI [of _ v'] exI [of _ q]) simp
    qed
  qed
qed simp_all

lemma collectJson_distinct:
  "wellFormed x \<longrightarrow> distinct (map place (collectJson x parent k))"
  "wellFormedItems xs \<longrightarrow> distinct (map place (collectJsonItems xs i here))"
  "wellFormedEntries kvs \<longrightarrow> distinct (map fst kvs) \<longrightarrow>
     distinct (map place (collectJsonEntries kvs here))"
proof (induction x parent k and xs i here and kvs here
    rule: collectJson_collectJsonItems_collectJsonEntries.induct)
  case (9 x xs i here)
  show ?case
  proof
    assume wf: "wellFormedItems (x # xs)"
    have "place a \<noteq> place b"
      if a: "a \<in> set (collectJson x (Some here) (Some (Index i)))"
        and b: "b \<in> set (collectJsonItems xs (Suc i) here)" for a b
    proof -
      from a collectJson_places(1) [of x "Some here" "Some (Index i)"]
      obtain q where "place a = here @ decimal i # q" by fastforce
      moreover from b collectJson_places(2) [of xs "Suc i" here]
      obtain j q' where "place b = here @ decimal (Suc i + j) # q'" by fastforce
      moreover have "decimal i \<noteq> decimal (Suc i + j)" by (auto dest: decimal_inj)
      ultimately show ?thesis by simp
    qed
    then have "place ` set (collectJson x (Some here) (Some (Index i)))
        \<inter> place ` set (collectJsonItems xs (Suc i) here) = {}"
      by auto
    with 9 wf show "distinct (map place (collectJsonItems (x # xs) i here))" by simp
  qed
next
  case (11 name v kvs here)
  show ?case
  proof (intro impI)
    assume wf: "wellFormedEntries ((name, v) # kvs)" and d: "distinct (map fst ((name, v) # kvs))"
    have "place a \<noteq> place b"
      if a: "a \<in> set (collectJson v (Some here) (Some (Prop name)))"
        and b: "b \<in> set (collectJsonEntries kvs here)" for a b
    proof -
      from a collectJson_places(1) [of v "Some here" "Some (Prop name)"]
      obtain q where "place a = here @ name # q" by fastforce
      moreover from b collectJson_places(3) [of kvs here]
      obtain name' v' q' where "(name', v') \<in> set kvs" "place b = here @ name' # q'" by fastforce
      moreover from this d have "name \<noteq> name'" by force
      ultimately show ?thesis by simp
    qed
    then have "place ` set (collectJson v (Some here) (Some (Prop name)))
        \<inter> place ` set (collectJsonEntries kvs here) = {}"
      by auto
    with 11 wf d show "distinct (map place (collectJsonEntries ((name, v) # kvs) here))" by simp
  qed
qed simp_all

lemma collectYaml_places:
  "\<forall>item \<in> set (collectYaml x parent k).
     \<exists>q. place item = location parent k @ q \<and> trim (val item) \<noteq> [] \<and>
       (wellFormed x \<longrightarrow> getAt x q = Some (JStr (val item)))"
  "\<forall>item \<in> set (collectYamlItems xs i here).
     \<exists>j q. j < length xs \<and> place item = here @ decimal (i + j) # q \<and> trim (val item) \<noteq> [] \<and>
       (wellFormedItems xs \<longrightarrow> getAt (xs ! j) q = Some (JStr (val item)))"
  "\<forall>item \<in> set (collectYamlEntries kvs here).
     \<exists>name v q. (name, v) \<in> set kvs \<and> place item = here @ name # q \<and> trim (val item) \<noteq> [] \<and>
       (wellFormedEntries kvs \<longrightarrow> getAt v q = Some (JStr (val item)))"
proof (induction x parent k and xs i here and kvs here
    rule: collectYaml_collectYamlItems_collectYamlEntries.induct)
  case (3 xs parent k)
  show ?case
  proof
    fix item assume "item \<in> set (collectYaml (JArr xs) parent k)"
    then have "item \<in> set (collectYamlItems xs 0 (location parent k))" by simp
    with 3 obtain j q where jq: "j < length xs" "place item = location parent k @ decimal j # q"
      "trim (val item) \<noteq> []"
      "wellFormedItems xs \<longrightarrow> getAt (xs ! j) q = Some (JStr (val item))"
      by fastforce
    then have "wellFormed (JArr xs) \<longrightarrow> getAt (JArr xs) (decimal j # q) = Some (JStr (val item))"
      by (simp add: arrayIndex_decimal)
    with jq show "\<exists>q. place item = location parent k @ q \<and> trim (val item) \<noteq> [] \<and>
       (wellFormed (JArr xs) \<longrightarrow> getAt (JArr xs) q = Some (JStr (val item)))"
      by blast
  qed
next
  case (4 kvs parent k)
  show ?case
  proof
    fix item assume "item \<in> set (collectYaml (JObj kvs) parent k)"
    then have "item \<in> set (collectYamlEntries kvs (location parent k))" by simp
    with 4 obtain name v q where nq: "(name, v) \<in> set kvs"
      "place item = location parent k @ name # q" "trim (val item) \<noteq> []"
      "wellFormedEntries kvs \<longrightarrow> getAt v q = Some (JStr (val item))"
      by fastforce
    then have "wellFormed (JObj kvs) \<longrightarrow> getAt (JObj kvs) (name # q) = Some (JStr (val item))"
      by simp
    with nq show "\<exists>q. place item = location parent k @ q \<and> trim (val item) \<noteq> [] \<and>
       (wellFormed (JObj kvs) \<longrightarrow> getAt (JObj kvs) q = Some (JStr (val item)))"
      by blast
  qed
next
  case (9 x xs i here)
  show ?case
  proof
    fix item assume "item \<in> set (collectYamlItems (x # xs) i here)"
    then consider (head) "item \<in> set (collectYaml x (Some here) (Some (Prop (decimal i))))"
      | (tail) "item \<in> set (collectYamlItems xs (Suc i) here)"
      by auto
    then show "\<exists>j q. j < length (x # xs) \<and> place item = here @ decimal (i + j) # q \<and>
       trim (val item) \<noteq> [] \<and>
       (wellFormedItems (x # xs) \<longrightarrow> getAt ((x # xs) ! j) q = Some (JStr (val item)))"
    proof cases
      case head
      with 9(1) obtain q where "place item = here @ decimal i # q" "trim (val item) \<noteq> []"
        "wellFormed x \<longrightarrow> getAt x q = Some (JStr (val item))"
        by fastforce
      then show ?thesis by (intro exI [of _ 0] exI [of _ q]) simp
    next
      case tail
      with 9(2) obtain j q where "j < length xs" "place item = here @ decimal (Suc i + j) # q"
        "trim (val item) \<noteq> []"
        "wellFormedItems xs \<longrightarrow> getAt (xs ! j) q = Some (JStr (val item))"
        by fastforce
      then show ?thesis by (intro exI [of _ "Suc j"] exI [of _ q]) simp
    qed
  qed
next
  case (11 name v kvs here)
  show ?case
  proof
    fix item assume "item \<in> set (collectYamlEntries ((name, v) # kvs) here)"
    then consider (head) "item \<in> set (collectYaml v (Some here) (Some (Prop name)))"
      | (tail) "item \<in> set (collectYamlEntries kvs here)"
      by auto
    then show "\<exists>name' v' q. (name', v') \<in> set ((name, v) # kvs) \<and>
       place item = here @ name' # q \<and> trim (val item) \<noteq> [] \<and>
       (wellFormedEntries ((name, v) # kvs) \<longrightarrow> getAt v' q = Some (JStr (val item)))"
    proof cases
      case head
      with 11(1) obtain q where "place item = here @ name # q" "trim (val item) \<noteq> []"
        "wellFormed v \<longrightarrow> getAt v q = Some (JStr (val item))"
        by fastforce
      then show ?thesis by (intro exI [of _ name] exI [of _ v] exI [of _ q]) simp
    next
      case tail
      with 11(2) obtain name' v' q where "(name', v') \<in> set kvs" "place item = here @ name' # q"
        "trim (val item) \<noteq> []"
        "wellFormedEntries kvs \<longrightarrow> getAt v' q = Some (JStr (val item))"
        by fastforce
      then show ?thesis by (intro exI [of _ name'] exI [of _ v'] exI [of _ q]) simp
    qed
  qed
qed simp_all

lemma collectYaml_distinct:
  "wellFormed x \<longrightarrow> distinct (map place (collectYaml x parent k))"
  "wellFormedItems xs \<longrightarrow> distinct (map place (collectYamlItems xs i here))"
  "wellFormedEntries kvs \<longrightarrow> distinct (map fst kvs) \<longrightarrow>
     distinct (map place (collectYamlEntries kvs here))"
proof (induction x parent k and xs i here and kvs here
    rule: collectYaml_collectYamlItems_collectYamlEntries.induct)
  case (9 x xs i here)
  show ?case
  proof
    assume wf: "wellFormedItems (x # xs)"
    have "place a \<noteq> place b"
      if a: "a \<in> set (collectYaml x (Some here) (Some (Prop (decimal i))))"
        and b: "b \<in> set (collectYamlItems xs (Suc i) here)" for a b
    proof -
      from a collectYaml_places(1) [of x "Some here" "Some (Prop (decimal i))"]
      obtain q where "place a = here @ decimal i # q" by fastforce
      moreover from b collectYaml_places(2) [of xs "Suc i" here]
      obtain j q' where "place b = here @ decimal (Suc i + j) # q'" by fastforce
      moreover have "decimal i \<noteq> decimal (Suc i + j)" by (auto dest: decimal_inj)
      ultimately show ?thesis by simp
    qed
    then have "place ` set (collectYaml x (Some here) (Some (Prop (decimal i))))
        \<inter> place ` set (collectYamlItems xs (Suc i) here) = {}"
      by auto
    with 9 wf show "distinct (map place (collectYamlItems (x # xs) i here))" by simp
  qed
next
  case (11 name v kvs here)
  show ?case
  proof (intro impI)
    assume wf: "wellFormedEntries ((name, v) # kvs)" and d: "distinct (map fst ((name, v) # kvs))"
    have "place a \<noteq> place b"
      if a: "a \<in> set (collectYaml v (Some here) (Some (Prop name)))"
        and b: "b \<in> set (collectYamlEntries kvs here)" for a b
    proof -
      from a collectYaml_places(1) [of v "Some here" "Some (Prop name)"]
      obtain q where "place a = here @ name # q" by fastforce
      moreover from b collectYaml_places(3) [of kvs here]
      obtain name' v' q' where "(name', v') \<in> set kvs" "place b = here @ name' # q'" by fastforce
      moreover from this d have "name \<noteq> name'" by force
      ultimately show ?thesis by simp
    qed
    then have "place ` set (collectYaml v (Some here) (Some (Prop name)))
        \<inter> place ` set (collectYamlEntries kvs here) = {}"
      by auto
    with 11 wf d show "distinct (map place (collectYamlEntries ((name, v) # kvs) here))" by simp
  qed
qed simp_all

end
